theory Spec2Isabelle
  imports Complex_Main
begin

section \<open>Board model\<close>

text \<open>
  The engine of \<^verbatim>\<open>go-game.js\<close>.  A cell holds one of the three constants
  \<^verbatim>\<open>EMPTY = 0, BLACK = 1, WHITE = 2\<close>; a board is an array of rows.  Coordinates are
  JavaScript numbers used as integers and may leave the board (\<^verbatim>\<open>r - 1\<close> at the edge, the
  \<^verbatim>\<open>-1\<close> of a pass), so they are \<^typ>\<open>int\<close>.
\<close>

datatype cell = EMPTY | BLACK | WHITE

type_synonym board = "cell list list"

type_synonym pos = "int \<times> int"

datatype error = TypeError

definition OTHER :: "cell \<Rightarrow> cell" where
  "OTHER c = (if c = BLACK then WHITE else BLACK)"

definition makeBoard :: "nat \<Rightarrow> board" where
  "makeBoard n = replicate n (replicate n EMPTY)"

definition cloneBoard :: "board \<Rightarrow> board" where
  "cloneBoard b = map (\<lambda>row. row) b"

definition cellDigit :: "cell \<Rightarrow> char" where
  "cellDigit v = (case v of EMPTY \<Rightarrow> CHR ''0'' | BLACK \<Rightarrow> CHR ''1'' | WHITE \<Rightarrow> CHR ''2'')"

fun join :: "string \<Rightarrow> string list \<Rightarrow> string" where
  "join sep [] = []"
| "join sep [x] = x"
| "join sep (x # y # ys) = x @ sep @ join sep (y # ys)"

definition boardKey :: "board \<Rightarrow> string" where
  "boardKey b = join ''|'' (map (\<lambda>row. join [] (map (\<lambda>v. [cellDigit v]) row)) b)"

text \<open>
  \<^verbatim>\<open>board[r][c]\<close> for a row index inside the board: \<open>None\<close> is JavaScript's
  \<^verbatim>\<open>undefined\<close>, read from a row shorter than the column index.  For a row index outside the
  board \<^verbatim>\<open>board[r]\<close> is \<^verbatim>\<open>undefined\<close> and the read raises a TypeError; the functions
  that read at coordinates of their caller (\<open>floodGroup\<close>, \<open>placeAndCapture\<close>) test
  the row first and return \<open>Inl TypeError\<close>, every other read is guarded by
  \<open>inBounds\<close> or by the loop bounds.
\<close>

definition cellAt :: "board \<Rightarrow> int \<Rightarrow> int \<Rightarrow> cell option" where
  "cellAt b r c =
     (if 0 \<le> r \<and> r < int (length b) then
        (let row = b ! nat r in
         if 0 \<le> c \<and> c < int (length row) then Some (row ! nat c) else None)
      else None)"

text \<open>
  \<^verbatim>\<open>newB[r][c] = v\<close>.  The source writes only to cells it has just read a stone or
  \<^verbatim>\<open>EMPTY\<close> from, so the write is inside the row; elsewhere the model leaves the board as
  it is.
\<close>

definition setCell :: "board \<Rightarrow> int \<Rightarrow> int \<Rightarrow> cell \<Rightarrow> board" where
  "setCell b r c v =
     (if 0 \<le> r \<and> r < int (length b) \<and> 0 \<le> c \<and> c < int (length (b ! nat r))
      then b[nat r := (b ! nat r)[nat c := v]] else b)"

definition inBounds :: "int \<Rightarrow> int \<Rightarrow> int \<Rightarrow> bool" where
  "inBounds sz r c \<longleftrightarrow> r \<ge> 0 \<and> r < sz \<and> c \<ge> 0 \<and> c < sz"

definition neighbors :: "int \<Rightarrow> int \<Rightarrow> int \<Rightarrow> pos list" where
  "neighbors sz r c =
     filter (\<lambda>(rr, cc). inBounds sz rr cc) [(r - 1, c), (r + 1, c), (r, c - 1), (r, c + 1)]"

text \<open>A JavaScript \<^verbatim>\<open>Set\<close>: its elements in insertion order, each once.\<close>

definition setAdd :: "'a \<Rightarrow> 'a list \<Rightarrow> 'a list" where
  "setAdd x xs = (if x \<in> set xs then xs else xs @ [x])"

text \<open>
  A \<^verbatim>\<open>for ... of\<close> loop whose body may raise: the state is threaded through the
  elements, the first error ends the loop.
\<close>

fun forEach :: "'i list \<Rightarrow> ('s \<Rightarrow> 'i \<Rightarrow> error + 's) \<Rightarrow> 's \<Rightarrow> error + 's" where
  "forEach [] body s = Inr s"
| "forEach (i # rest) body s =
     (case body s i of Inl e \<Rightarrow> Inl e | Inr s' \<Rightarrow> forEach rest body s')"

section \<open>Groups and liberties\<close>

record group =
  grp_color :: "cell option"
  grp_stones :: "pos list"
  grp_liberties :: "pos list"

text \<open>
  The \<^verbatim>\<open>for\<close> loop over the neighbours of the stone just popped: an empty neighbour is a
  liberty, a neighbour of the group's colour not yet among the stones is pushed.
\<close>

fun floodScan ::
  "board \<Rightarrow> cell option \<Rightarrow> pos list \<Rightarrow> pos list \<Rightarrow> pos list \<times> pos list \<Rightarrow> pos list \<times> pos list"
where
  "floodScan b col stones [] (libs, stack) = (libs, stack)"
| "floodScan b col stones ((ar, ac) # ns) (libs, stack) =
     (let v = cellAt b ar ac in
      floodScan b col stones ns
        (if v = Some EMPTY then (setAdd (ar, ac) libs, stack)
         else if v = col \<and> (ar, ac) \<notin> set stones then (libs, (ar, ac) # stack)
         else (libs, stack)))"

lemma floodScan_stack: "set (snd (floodScan b col stones ns ls)) \<subseteq> set (snd ls) \<union> set ns"
  by (induction b col stones ns ls rule: floodScan.induct) (auto simp: Let_def)

definition cells :: "board \<Rightarrow> pos set" where
  "cells b = {0 ..< int (length b)} \<times> {0 ..< int (length b)}"

lemma finite_cells [simp]: "finite (cells b)"
  by (simp add: cells_def)

lemma neighbors_cells: "set (neighbors (int (length b)) r c) \<subseteq> cells b"
  by (auto simp: neighbors_def cells_def inBounds_def)

text \<open>
  The \<^verbatim>\<open>while (stack.length)\<close> loop.  The stack is a list with its top at the head.
\<close>

function floodLoop ::
  "board \<Rightarrow> cell option \<Rightarrow> pos list \<Rightarrow> pos list \<Rightarrow> pos list \<Rightarrow> pos list \<times> pos list"
where
  "floodLoop b col [] stones libs = (stones, libs)"
| "floodLoop b col ((rr, cc) # stack) stones libs =
     (if (rr, cc) \<in> set stones then floodLoop b col stack stones libs
      else
        (let stones' = stones @ [(rr, cc)];
             (libs', stack') =
               floodScan b col stones' (neighbors (int (length b)) rr cc) (libs, stack)
         in floodLoop b col stack' stones' libs'))"
  by pat_completeness auto

termination
proof (relation "inv_image (finite_psubset <*lex*> less_than)
    (\<lambda>(b, col, stack, stones, libs). ((cells b \<union> set stack) - set stones, length stack))",
    goal_cases)
  case 1
  show ?case by auto
next
  case (2 b col rr cc stack stones libs)
  then show ?case by (auto simp: finite_psubset_def)
next
  case (3 b col rr cc stack stones libs stones' x libs' stack')
  have "stack' = snd (floodScan b col stones' (neighbors (int (length b)) rr cc) (libs, stack))"
    using 3 by (metis snd_conv)
  then have sub: "set stack' \<subseteq> set stack \<union> cells b"
    using floodScan_stack [of b col stones' "neighbors (int (length b)) rr cc" "(libs, stack)"]
      neighbors_cells [of b rr cc]
    by auto
  have "(cells b \<union> set stack') - set stones' \<subset> (cells b \<union> set ((rr, cc) # stack)) - set stones"
    using sub 3(1,2) by auto
  then show ?case by (simp add: finite_psubset_def)
qed

definition floodGroup :: "board \<Rightarrow> int \<Rightarrow> int \<Rightarrow> error + group" where
  "floodGroup b r c =
     (if 0 \<le> r \<and> r < int (length b) then
        (let col = cellAt b r c;
             (stones, libs) = floodLoop b col [(r, c)] [] []
         in Inr \<lparr>grp_color = col, grp_stones = stones, grp_liberties = libs\<rparr>)
      else Inl TypeError)"

section \<open>Placing a stone and capturing\<close>

record placed =
  res_board :: board
  res_captured :: nat

text \<open>
  The inner loop of a capture: every stone of the group becomes \<^verbatim>\<open>EMPTY\<close> and is counted.
\<close>

fun removeStones :: "board \<Rightarrow> pos list \<Rightarrow> nat \<Rightarrow> board \<times> nat" where
  "removeStones newB [] captured = (newB, captured)"
| "removeStones newB ((sr, sc) # rest) captured =
     removeStones (setCell newB sr sc EMPTY) rest (Suc captured)"

text \<open>
  The loop over the neighbours of the placed stone.  Its state is the board being edited,
  the capture count and the \<^verbatim>\<open>seen\<close> set of neighbours already examined.
\<close>

definition captureStep ::
  "cell \<Rightarrow> board \<times> nat \<times> pos list \<Rightarrow> pos \<Rightarrow> error + board \<times> nat \<times> pos list"
where
  "captureStep opp st n =
     (case st of (newB, captured, seen) \<Rightarrow>
      case n of (nr, nc) \<Rightarrow>
        if cellAt newB nr nc = Some opp then
          (if (nr, nc) \<in> set seen then Inr (newB, captured, seen)
           else
             (case floodGroup newB nr nc of
                Inl e \<Rightarrow> Inl e
              | Inr grp \<Rightarrow>
                  if length (grp_liberties grp) = 0 then
                    (case removeStones newB (grp_stones grp) captured of
                       (newB', captured') \<Rightarrow> Inr (newB', captured', setAdd (nr, nc) seen))
                  else Inr (newB, captured, setAdd (nr, nc) seen)))
        else Inr (newB, captured, seen))"

definition placeAndCapture :: "board \<Rightarrow> int \<Rightarrow> int \<Rightarrow> cell \<Rightarrow> error + placed option" where
  "placeAndCapture b r c col =
     (let sz = int (length b) in
      if \<not> (0 \<le> r \<and> r < sz) then Inl TypeError
      else if cellAt b r c \<noteq> Some EMPTY then Inr None
      else
        (let newB = setCell (cloneBoard b) r c col;
             opp = OTHER col
         in case forEach (neighbors sz r c) (captureStep opp) (newB, 0, []) of
              Inl e \<Rightarrow> Inl e
            | Inr (newB', captured, seen) \<Rightarrow>
                (case floodGroup newB' r c of
                   Inl e \<Rightarrow> Inl e
                 | Inr self \<Rightarrow>
                     if length (grp_liberties self) = 0 then Inr None
                     else Inr (Some \<lparr>res_board = newB', res_captured = captured\<rparr>))))"

section \<open>Legal moves\<close>

record move =
  move_r :: int
  move_c :: int
  move_res :: placed
  move_pass :: bool

text \<open>
  The body of the two nested loops of \<^verbatim>\<open>legalMoves\<close>.  \<^verbatim>\<open>koKeyLast && k === koKeyLast\<close>
  holds when the key is neither \<^verbatim>\<open>null\<close> nor the empty string and equals \<open>k\<close>.
\<close>

definition legalCell ::
  "board \<Rightarrow> cell \<Rightarrow> string option \<Rightarrow> int \<Rightarrow> move list \<Rightarrow> int \<Rightarrow> error + move list"
where
  "legalCell b col koKeyLast r list c =
     (if cellAt b r c \<noteq> Some EMPTY then Inr list
      else
        (case placeAndCapture b r c col of
           Inl e \<Rightarrow> Inl e
         | Inr None \<Rightarrow> Inr list
         | Inr (Some res) \<Rightarrow>
             (let k = boardKey (res_board res) in
              if koKeyLast \<noteq> None \<and> koKeyLast \<noteq> Some [] \<and> Some k = koKeyLast then Inr list
              else Inr (list @ [\<lparr>move_r = r, move_c = c, move_res = res, move_pass = False\<rparr>]))))"

definition passMove :: "board \<Rightarrow> move" where
  "passMove b =
     \<lparr>move_r = - 1, move_c = - 1,
      move_res = \<lparr>res_board = cloneBoard b, res_captured = 0\<rparr>, move_pass = True\<rparr>"

definition legalMoves :: "board \<Rightarrow> cell \<Rightarrow> string option \<Rightarrow> error + move list" where
  "legalMoves b col koKeyLast =
     (let sz = int (length b) in
      case forEach [0 .. sz - 1]
             (\<lambda>list r. forEach [0 .. sz - 1] (legalCell b col koKeyLast r) list) [] of
        Inl e \<Rightarrow> Inl e
      | Inr list \<Rightarrow> Inr (list @ [passMove b]))"

text \<open>
  What one cell contributes to the list, and the placements of the whole board in the
  order of the two loops: \<open>legalMoves\<close> returns them followed by the pass
  (\<open>legalMoves_eq\<close> below).
\<close>

definition cellMoves :: "board \<Rightarrow> cell \<Rightarrow> string option \<Rightarrow> int \<Rightarrow> int \<Rightarrow> move list" where
  "cellMoves b col koKeyLast r c =
     (case legalCell b col koKeyLast r [] c of Inl e \<Rightarrow> [] | Inr ms \<Rightarrow> ms)"

definition placements :: "board \<Rightarrow> cell \<Rightarrow> string option \<Rightarrow> move list" where
  "placements b col koKeyLast =
     concat (map (\<lambda>r. concat (map (cellMoves b col koKeyLast r) [0 .. int (length b) - 1]))
       [0 .. int (length b) - 1])"

text \<open>
  The test the playout makes on the opponent's reply list after a pass:
  \<^verbatim>\<open>replyMoves.length && replyMoves[replyMoves.length - 1].pass && replyMoves.length === 1\<close>.
\<close>

definition replyIsPass :: "move list \<Rightarrow> bool" where
  "replyIsPass replyMoves \<longleftrightarrow>
     length replyMoves \<noteq> 0 \<and> move_pass (replyMoves ! (length replyMoves - 1)) \<and>
     length replyMoves = 1"

section \<open>Area scoring\<close>

text \<open>
  \<^verbatim>\<open>chineseScore\<close>.  Both pairs of nested loops visit the cells of the
  \<^verbatim>\<open>size\<close> x \<^verbatim>\<open>size\<close> window in row-major order (\<open>allCells\<close>).  The
  \<^verbatim>\<open>seen\<close> array is the set of the cells it marks; the stack \<^verbatim>\<open>q\<close> is empty whenever
  a region starts, so each region has its own; \<^verbatim>\<open>border\<close> is a set of cell values, and a
  read outside a short row puts \<^verbatim>\<open>undefined\<close> (\<open>None\<close>) into it.  The owner \<^verbatim>\<open>0\<close> of
  a region that counts for neither side is the value of \<^verbatim>\<open>EMPTY\<close>.
\<close>

record score =
  score_black :: nat
  score_white :: nat

definition allCells :: "board \<Rightarrow> pos list" where
  "allCells b = [(r, c). r \<leftarrow> [0 .. int (length b) - 1], c \<leftarrow> [0 .. int (length b) - 1]]"

definition countStone :: "board \<Rightarrow> nat \<times> nat \<Rightarrow> pos \<Rightarrow> nat \<times> nat" where
  "countStone b acc p =
     (case acc of (black, white) \<Rightarrow>
      case p of (r, c) \<Rightarrow>
        if cellAt b r c = Some BLACK then (black + 1, white)
        else if cellAt b r c = Some WHITE then (black, white + 1)
        else (black, white))"

fun regionScan ::
  "board \<Rightarrow> pos list \<Rightarrow> pos set \<times> pos list \<times> cell option list \<Rightarrow>
   pos set \<times> pos list \<times> cell option list"
where
  "regionScan b [] st = st"
| "regionScan b ((ar, ac) # ns) (seen, q, border) =
     (let v = cellAt b ar ac in
      regionScan b ns
        (if v = Some EMPTY \<and> (ar, ac) \<notin> seen then (insert (ar, ac) seen, (ar, ac) # q, border)
         else if v \<noteq> Some EMPTY then (seen, q, setAdd v border)
         else (seen, q, border)))"

lemma regionScan_measure:
  assumes "set ns \<subseteq> cells b"
  shows "card (cells b - fst (regionScan b ns (seen, q, border))) +
       length (fst (snd (regionScan b ns (seen, q, border))))
     = card (cells b - seen) + length q"
  using assms
proof (induction b ns "(seen, q, border)" arbitrary: seen q border rule: regionScan.induct)
  case (1 b)
  show ?case by simp
next
  case (2 b ar ac ns seen q border)
  show ?case
  proof (cases "cellAt b ar ac = Some EMPTY \<and> (ar, ac) \<notin> seen")
    case True
    have "(ar, ac) \<in> cells b - seen" using True 2(2) by simp
    then have "card (cells b - insert (ar, ac) seen) + 1 = card (cells b - seen)"
      by (metis Diff_insert finite_Diff finite_cells card_Suc_Diff1 Suc_eq_plus1)
    with True 2 show ?thesis by (simp add: Let_def)
  next
    case False
    with 2 show ?thesis by (auto simp add: Let_def)
  qed
qed

function regionLoop ::
  "board \<Rightarrow> pos list \<Rightarrow> pos set \<Rightarrow> nat \<Rightarrow> cell option list \<Rightarrow> pos set \<times> nat \<times> cell option list"
where
  "regionLoop b [] seen count border = (seen, count, border)"
| "regionLoop b ((rr, cc) # q) seen count border =
     (case regionScan b (neighbors (int (length b)) rr cc) (seen, q, border) of
        (seen', q', border') \<Rightarrow> regionLoop b q' seen' (count + 1) border')"
  by pat_completeness auto

termination
proof (relation "measure (\<lambda>(b, q, seen, count, border). card (cells b - seen) + length q)", goal_cases)
  case 1
  show ?case by simp
next
  case (2 b rr cc q seen count border x xa y xb)
  have "card (cells b - fst (regionScan b (neighbors (int (length b)) rr cc) (seen, q, border))) +
       length (fst (snd (regionScan b (neighbors (int (length b)) rr cc) (seen, q, border))))
     = card (cells b - seen) + length q"
    by (rule regionScan_measure) (rule neighbors_cells)
  moreover have "x = fst (regionScan b (neighbors (int (length b)) rr cc) (seen, q, border))"
    "y = fst (snd (regionScan b (neighbors (int (length b)) rr cc) (seen, q, border)))"
    using 2 by (metis fst_conv, metis fst_conv snd_conv)
  ultimately show ?case by simp
qed

definition regionStep :: "board \<Rightarrow> pos set \<times> nat \<times> nat \<Rightarrow> pos \<Rightarrow> pos set \<times> nat \<times> nat" where
  "regionStep b st p =
     (case st of (seen, black, white) \<Rightarrow>
      case p of (r, c) \<Rightarrow>
        if cellAt b r c \<noteq> Some EMPTY \<or> (r, c) \<in> seen then (seen, black, white)
        else
          (case regionLoop b [(r, c)] (insert (r, c) seen) 0 [] of
             (seen', count, border) \<Rightarrow>
               (let owner = (if length border = 1
                             then (if Some BLACK \<in> set border then BLACK else WHITE)
                             else EMPTY)
                in if owner = BLACK then (seen', black + count, white)
                   else if owner = WHITE then (seen', black, white + count)
                   else (seen', black, white))))"

definition chineseScore :: "board \<Rightarrow> score" where
  "chineseScore b =
     (case foldl (countStone b) (0, 0) (allCells b) of
        (black, white) \<Rightarrow>
          (case foldl (regionStep b) ({}, black, white) (allCells b) of
             (seen, black', white') \<Rightarrow> \<lparr>score_black = black', score_white = white'\<rparr>))"

section \<open>The heuristic\<close>

text \<open>
  \<^verbatim>\<open>heuristic\<close> computes in floating point; the model computes the same expression in
  the reals, \<^verbatim>\<open>Math.hypot\<close> being the root of the sum of the squares.  Rounding can
  order two moves in the code that are equal in the reals, so nothing below says which
  move of a general position is picked: the general statements depend on no value of it,
  and the values used at concrete positions are those of the empty 2 x 2 board, where
  the four placements have one value and the pass a smaller one, in the code as here.
  \<open>helpWeak\<close> is the body of its loop over the neighbours.
\<close>

definition hypot :: "real \<Rightarrow> real \<Rightarrow> real" where
  "hypot x y = sqrt (x\<^sup>2 + y\<^sup>2)"

definition helpWeak :: "board \<Rightarrow> cell \<Rightarrow> real \<Rightarrow> pos \<Rightarrow> error + real" where
  "helpWeak b col score n =
     (case n of (nr, nc) \<Rightarrow>
        if cellAt b nr nc = Some col then
          (case floodGroup b nr nc of
             Inl e \<Rightarrow> Inl e
           | Inr grp \<Rightarrow> Inr (score + max 0 (3 - real (length (grp_liberties grp)))))
        else Inr score)"

definition heuristic :: "board \<Rightarrow> move \<Rightarrow> cell \<Rightarrow> error + real" where
  "heuristic b mv col =
     (if move_pass mv then Inr (- 0.2)
      else
        (let sz = int (length b);
             center = (real_of_int sz - 1) / 2;
             r = move_r mv;
             c = move_c mv;
             dCenter = hypot (real_of_int r - center) (real_of_int c - center)
         in case forEach (neighbors sz r c) (helpWeak b col)
                   (0 + real (res_captured (move_res mv)) * 5) of
              Inl e \<Rightarrow> Inl e
            | Inr score \<Rightarrow>
                (case floodGroup (res_board (move_res mv)) r c of
                   Inl e \<Rightarrow> Inl e
                 | Inr self \<Rightarrow>
                     Inr ((if length (grp_liberties self) = 1 then score - 3 else score)
                          + (real_of_int sz / 2 - dCenter) * 0.2))))"

section \<open>The random playout\<close>

text \<open>
  \<^verbatim>\<open>Math.random()\<close> is a sequence \<open>rnd\<close> of reals and a counter of the draws made so
  far.  One ply draws once per move for the jitter, in the order of the list, and once
  for the index; an index outside the list reads \<^verbatim>\<open>undefined\<close>, whose \<^verbatim>\<open>.m\<close> raises.
  \<open>po_played\<close> counts the plies played; the source has no such variable, it is there
  to be observed.  \<open>playPly\<close> is the body of the \<^verbatim>\<open>for\<close> loop and returns whether the
  loop breaks; \<open>playoutLoop rnd n\<close> runs at most \<open>n\<close> plies.
\<close>

text \<open>\<^verbatim>\<open>list.map(f)\<close> for an \<open>f\<close> that may raise and that draws from a counter.\<close>

fun mapScored ::
  "('a \<Rightarrow> nat \<Rightarrow> error + 'b) \<Rightarrow> 'a list \<Rightarrow> nat \<Rightarrow> error + 'b list"
where
  "mapScored f [] i = Inr []"
| "mapScored f (x # xs) i =
     (case f x i of
        Inl e \<Rightarrow> Inl e
      | Inr y \<Rightarrow> (case mapScored f xs (Suc i) of Inl e \<Rightarrow> Inl e | Inr ys \<Rightarrow> Inr (y # ys)))"

text \<open>
  \<^verbatim>\<open>scored.sort((a, b) => b.s - a.s)\<close>: the sort is stable, so it is the insertion sort
  on the negated score.
\<close>

definition sortDesc :: "('a \<times> real) list \<Rightarrow> ('a \<times> real) list" where
  "sortDesc scored = sort_key (\<lambda>ms. - snd ms) scored"

record playout =
  po_board :: board
  po_koKeyLast :: "string option"
  po_lastPass :: bool
  po_turn :: cell
  po_draws :: nat
  po_played :: nat

definition playPly :: "(nat \<Rightarrow> real) \<Rightarrow> playout \<Rightarrow> error + playout \<times> bool" where
  "playPly rnd st =
     (case legalMoves (po_board st) (po_turn st) (po_koKeyLast st) of
        Inl e \<Rightarrow> Inl e
      | Inr moves \<Rightarrow>
          (case mapScored
                  (\<lambda>m i. case heuristic (po_board st) m (po_turn st) of
                            Inl e \<Rightarrow> Inl e
                          | Inr h \<Rightarrow> Inr (m, h + rnd i * 0.3))
                  moves (po_draws st) of
             Inl e \<Rightarrow> Inl e
           | Inr scored0 \<Rightarrow>
               (let scored = sortDesc scored0;
                    K = min 10 (int (length scored));
                    idx = \<lfloor>rnd (po_draws st + length moves) * real_of_int K\<rfloor>
                in if \<not> (0 \<le> idx \<and> idx < int (length scored)) then Inl TypeError
                   else
                     (let pick = fst (scored ! nat idx);
                          next = res_board (move_res pick);
                          newKey = boardKey next;
                          st' = \<lparr>po_board = next, po_koKeyLast = Some newKey,
                                 po_lastPass = move_pass pick, po_turn = OTHER (po_turn st),
                                 po_draws = po_draws st + length moves + 1,
                                 po_played = po_played st + 1\<rparr>
                      in if move_pass pick then
                           (case legalMoves next (OTHER (po_turn st)) (Some newKey) of
                              Inl e \<Rightarrow> Inl e
                            | Inr replyMoves \<Rightarrow> Inr (st', replyIsPass replyMoves))
                         else Inr (st', False)))))"

fun playoutLoop :: "(nat \<Rightarrow> real) \<Rightarrow> nat \<Rightarrow> playout \<Rightarrow> error + playout" where
  "playoutLoop rnd 0 st = Inr st"
| "playoutLoop rnd (Suc n) st =
     (case playPly rnd st of
        Inl e \<Rightarrow> Inl e
      | Inr (st', stop) \<Rightarrow> if stop then Inr st' else playoutLoop rnd n st')"

definition winnerOf :: "board \<Rightarrow> cell" where
  "winnerOf b =
     (let sc = chineseScore b in if score_black sc > score_white sc then BLACK else WHITE)"

definition playoutStart :: "board \<Rightarrow> cell \<Rightarrow> nat \<Rightarrow> playout" where
  "playoutStart startBoard colorToPlay draws =
     \<lparr>po_board = cloneBoard startBoard, po_koKeyLast = None, po_lastPass = False,
      po_turn = colorToPlay, po_draws = draws, po_played = 0\<rparr>"

definition randomPlayoutWinner ::
  "(nat \<Rightarrow> real) \<Rightarrow> nat \<Rightarrow> board \<Rightarrow> cell \<Rightarrow> int \<Rightarrow> error + cell \<times> nat"
where
  "randomPlayoutWinner rnd draws startBoard colorToPlay plies =
     (case playoutLoop rnd (nat plies) (playoutStart startBoard colorToPlay draws) of
        Inl e \<Rightarrow> Inl e
      | Inr st \<Rightarrow> Inr (winnerOf (po_board st), po_draws st))"


section \<open>Move selection\<close>

text \<open>
  \<^verbatim>\<open>chooseAIMoveAsync\<close> reads the clock and the cancellation flag, which its caller sets
  between the yields: \<open>env_now\<close> and \<open>env_cancel\<close> give the successive readings, and a
  \<open>world\<close> counts the readings and the random draws made.  \<open>None\<close> is the \<^verbatim>\<open>null\<close>
  returned on cancellation; a time budget of \<open>None\<close> is \<^verbatim>\<open>Infinity\<close>, a best score of
  \<open>None\<close> is \<^verbatim>\<open>-Infinity\<close>.  The progress callback and the yields change nothing the
  function returns and are left out.  The comparator of the sort calls \<^verbatim>\<open>heuristic\<close> on
  both arguments; the model computes each move's value once.
\<close>

record env =
  env_random :: "nat \<Rightarrow> real"
  env_now :: "nat \<Rightarrow> real"
  env_cancel :: "nat \<Rightarrow> bool"

record world =
  w_draws :: nat
  w_ticks :: nat
  w_polls :: nat

definition overBudget :: "real option \<Rightarrow> real \<Rightarrow> real \<Rightarrow> bool" where
  "overBudget timeBudgetMs start now =
     (case timeBudgetMs of None \<Rightarrow> False | Some t \<Rightarrow> now - start > t)"

fun level1Loop ::
  "env \<Rightarrow> board \<Rightarrow> cell \<Rightarrow> move list \<Rightarrow> world \<times> move \<times> real \<Rightarrow> error + move option"
where
  "level1Loop e b col [] (w, best, bestS) = Inr (Some best)"
| "level1Loop e b col (m # ms) (w, best, bestS) =
     (if env_cancel e (w_polls w) then Inr None
      else
        (case heuristic b m col of
           Inl err \<Rightarrow> Inl err
         | Inr s \<Rightarrow>
             level1Loop e b col ms
               (w\<lparr>w_polls := w_polls w + 1\<rparr>,
                if s > bestS then m else best, if s > bestS then s else bestS)))"

fun simLoop ::
  "env \<Rightarrow> board \<Rightarrow> cell \<Rightarrow> int \<Rightarrow> real option \<Rightarrow> real \<Rightarrow> nat \<Rightarrow> world \<Rightarrow> nat \<Rightarrow>
   error + (world \<times> nat) option"
where
  "simLoop e nextBoard col plies budget start 0 w wins = Inr (Some (w, wins))"
| "simLoop e nextBoard col plies budget start (Suc n) w wins =
     (if env_cancel e (w_polls w) then Inr None
      else
        (let now = env_now e (w_ticks w);
             w1 = w\<lparr>w_polls := w_polls w + 1, w_ticks := w_ticks w + 1\<rparr>
         in if overBudget budget start now then Inr (Some (w1, wins))
            else
              (case randomPlayoutWinner (env_random e) (w_draws w1) nextBoard (OTHER col) plies of
                 Inl err \<Rightarrow> Inl err
               | Inr (winner, draws) \<Rightarrow>
                   simLoop e nextBoard col plies budget start n (w1\<lparr>w_draws := draws\<rparr>)
                     (if winner = col then wins + 1 else wins))))"

fun candidateLoop ::
  "env \<Rightarrow> board \<Rightarrow> cell \<Rightarrow> int \<Rightarrow> real option \<Rightarrow> real \<Rightarrow> nat \<Rightarrow> move list \<Rightarrow>
   world \<times> move \<times> real option \<Rightarrow> error + move option"
where
  "candidateLoop e b col plies budget start playouts [] (w, best, bestScore) = Inr (Some best)"
| "candidateLoop e b col plies budget start playouts (m # ms) (w, best, bestScore) =
     (if env_cancel e (w_polls w) then Inr None
      else
        (case simLoop e (res_board (move_res m)) col plies budget start playouts
                (w\<lparr>w_polls := w_polls w + 1\<rparr>) 0 of
           Inl err \<Rightarrow> Inl err
         | Inr None \<Rightarrow> Inr None
         | Inr (Some (w1, wins)) \<Rightarrow>
             (case heuristic b m col of
                Inl err \<Rightarrow> Inl err
              | Inr h \<Rightarrow>
                  (let tie = h * 0.1;
                       score = real wins + tie;
                       better = (case bestScore of None \<Rightarrow> True | Some bs \<Rightarrow> score > bs);
                       best' = (if better then m else best);
                       bestScore' = (if better then Some score else bestScore);
                       now2 = env_now e (w_ticks w1);
                       w2 = w1\<lparr>w_ticks := w_ticks w1 + 1\<rparr>
                   in if overBudget budget start now2 then Inr (Some best')
                      else candidateLoop e b col plies budget start playouts ms
                             (w2, best', bestScore')))))"

definition playoutsTable :: "nat list" where "playoutsTable = [0, 6, 20, 60, 120]"
definition plies9 :: "int list" where "plies9 = [0, 30, 60, 100, 140]"
definition plies11 :: "int list" where "plies11 = [0, 40, 80, 120, 160]"
definition plies19 :: "int list" where "plies19 = [0, 50, 100, 140, 180]"

definition chooseAIMoveAsync ::
  "env \<Rightarrow> world \<Rightarrow> board \<Rightarrow> cell \<Rightarrow> int \<Rightarrow> string option \<Rightarrow> bool \<Rightarrow> error + move option"
where
  "chooseAIMoveAsync e w b col level koKeyLast blitz =
     (case legalMoves b col koKeyLast of
        Inl err \<Rightarrow> Inl err
      | Inr moves \<Rightarrow>
          if length moves = 1 \<and> move_pass (moves ! 0) then Inr (Some (moves ! 0))
          else
            (let sz = int (length b);
                 candidateLimit =
                   (if sz \<le> 9 then 18 else if sz = 11 then 28 else if level \<le> 2 then 22 else 45);
                 captures = filter (\<lambda>m. res_captured (move_res m) > 0) moves
             in case mapScored
                       (\<lambda>m i. case heuristic b m col of
                                 Inl err \<Rightarrow> Inl err
                               | Inr h \<Rightarrow> Inr (m, h))
                       (filter (\<lambda>m. res_captured (move_res m) = 0) moves) 0 of
                  Inl err \<Rightarrow> Inl err
                | Inr keyed \<Rightarrow>
                    (let noncaps =
                           take (nat (max 0 (candidateLimit - int (length captures))))
                             (map fst (sortDesc keyed));
                         candidates0 = captures @ noncaps;
                         candidates = (if length candidates0 = 0 then candidates0 @ moves
                                       else candidates0);
                         L = max 1 (min 5 level);
                         playouts = playoutsTable ! nat (L - 1);
                         plies = (if sz \<le> 9 then plies9 else if sz = 11 then plies11 else plies19)
                                   ! nat (L - 1);
                         start = env_now e (w_ticks w);
                         w1 = w\<lparr>w_ticks := w_ticks w + 1\<rparr>;
                         timeBudgetMs =
                           (if blitz then Some 150
                            else if L \<le> 2 then Some (if sz \<le> 9 then 300 else 500)
                            else None)
                     in if L = 1 then
                          level1Loop e b col candidates (w1, candidates ! 0, - 1000000000)
                        else
                          candidateLoop e b col plies timeBudgetMs start playouts candidates
                            (w1, candidates ! 0, None))))"

section \<open>The engine raises nothing on the board\<close>

lemma cloneBoard_id [simp]: "cloneBoard b = b"
  by (simp add: cloneBoard_def)

lemma length_setCell [simp]: "length (setCell b r c v) = length b"
  by (simp add: setCell_def)

lemma map_length_setCell [simp]: "map length (setCell b r c v) = map length b"
  by (auto simp: setCell_def map_update list_update_same_conv)

lemma removeStones_shape:
  "removeStones b ps n = (b', n') \<Longrightarrow> map length b' = map length b"
  by (induction b ps n rule: removeStones.induct) auto

lemma length_eq_of_shape: "map length b' = map length b \<Longrightarrow> length b' = length b"
  by (metis length_map)

lemma floodGroup_Inr:
  "0 \<le> r \<Longrightarrow> r < int (length b) \<Longrightarrow> \<exists>g. floodGroup b r c = Inr g"
  by (simp add: floodGroup_def Let_def split: prod.splits)

lemma captureStep_Inr:
  assumes "0 \<le> fst n" "fst n < int (length (fst st))"
  shows "\<exists>st'. captureStep opp st n = Inr st' \<and> map length (fst st') = map length (fst st)"
proof -
  obtain newB captured seen where st: "st = (newB, captured, seen)" by (cases st) auto
  obtain nr nc where n: "n = (nr, nc)" by (cases n) auto
  from assms st n obtain g where g: "floodGroup newB nr nc = Inr g"
    using floodGroup_Inr [of nr newB nc] by auto
  show ?thesis
    using g removeStones_shape [of newB "grp_stones g" captured]
    by (auto simp: captureStep_def st n split: prod.splits)
qed

lemma forEach_captureStep_Inr:
  assumes "\<forall>n \<in> set ns. 0 \<le> fst n \<and> fst n < int (length (fst st))"
  shows "\<exists>st'. forEach ns (captureStep opp) st = Inr st' \<and> map length (fst st') = map length (fst st)"
  using assms
proof (induction ns arbitrary: st)
  case Nil
  then show ?case by simp
next
  case (Cons n ns)
  then obtain st1 where s1: "captureStep opp st n = Inr st1" "map length (fst st1) = map length (fst st)"
    using captureStep_Inr [of n st opp] by auto
  then have "length (fst st1) = length (fst st)" by (metis length_map)
  with Cons.prems have "\<forall>n \<in> set ns. 0 \<le> fst n \<and> fst n < int (length (fst st1))" by simp
  from Cons.IH [OF this] s1 show ?case by auto
qed

lemma set_neighbors:
  "set (neighbors sz r c) =
     {p. inBounds sz (fst p) (snd p) \<and> p \<in> {(r - 1, c), (r + 1, c), (r, c - 1), (r, c + 1)}}"
  unfolding neighbors_def set_filter by auto

lemma neighbors_rows: "n \<in> set (neighbors sz r c) \<Longrightarrow> 0 \<le> fst n \<and> fst n < sz"
  unfolding set_neighbors by (auto simp: inBounds_def)

lemma placeAndCapture_Inr:
  assumes "0 \<le> r" "r < int (length b)"
  shows "\<exists>res. placeAndCapture b r c col = Inr res"
proof (cases "cellAt b r c = Some EMPTY")
  case False
  with assms show ?thesis by (simp add: placeAndCapture_def)
next
  case True
  let ?newB = "setCell (cloneBoard b) r c col"
  have "\<forall>n \<in> set (neighbors (int (length b)) r c). 0 \<le> fst n \<and> fst n < int (length (fst (?newB, 0::nat, []::pos list)))"
    using neighbors_rows by simp
  from forEach_captureStep_Inr [OF this, of "OTHER col"]
  obtain newB' captured seen where
    fe: "forEach (neighbors (int (length b)) r c) (captureStep (OTHER col)) (?newB, 0, []) = Inr (newB', captured, seen)"
    and sh: "map length newB' = map length b"
    by (cases "forEach (neighbors (int (length b)) r c) (captureStep (OTHER col)) (?newB, 0, [])") auto
  from sh have "length newB' = length b" by (metis length_map)
  with assms obtain g where "floodGroup newB' r c = Inr g"
    using floodGroup_Inr [of r newB' c] by auto
  with fe True assms show ?thesis
    by (simp add: placeAndCapture_def Let_def del: cloneBoard_id)
qed

lemma placeAndCapture_shape:
  assumes "placeAndCapture b r c col = Inr (Some res)"
  shows "map length (res_board res) = map length b"
proof -
  from assms have r: "0 \<le> r" "r < int (length b)" and e: "cellAt b r c = Some EMPTY"
    by (auto simp: placeAndCapture_def Let_def split: if_splits)
  let ?newB = "setCell (cloneBoard b) r c col"
  have "\<forall>n \<in> set (neighbors (int (length b)) r c). 0 \<le> fst n \<and> fst n < int (length (fst (?newB, 0::nat, []::pos list)))"
    using neighbors_rows by simp
  from forEach_captureStep_Inr [OF this, of "OTHER col"]
  obtain newB' captured seen where
    fe: "forEach (neighbors (int (length b)) r c) (captureStep (OTHER col)) (?newB, 0, []) = Inr (newB', captured, seen)"
    and sh: "map length newB' = map length b"
    by (cases "forEach (neighbors (int (length b)) r c) (captureStep (OTHER col)) (?newB, 0, [])") auto
  from assms fe r e have "res_board res = newB'"
    by (auto simp: placeAndCapture_def Let_def split: if_splits sum.splits simp del: cloneBoard_id)
  with sh show ?thesis by simp
qed

section \<open>Groups as connected components\<close>

text \<open>
  What \<open>floodGroup\<close> computes, in the words of the glossary: a group is a maximal
  orthogonally-connected set of stones of one colour, a liberty is an empty cell adjacent
  to a stone of the group.  \<open>sameStep b k\<close> is one step to a neighbour of colour \<open>k\<close>
  (the loop of \<open>floodGroup\<close> never steps between empty cells), \<open>component b p\<close> is
  everything reached from \<open>p\<close> by such steps, \<open>libertiesOf b S\<close> the empty neighbours
  of \<open>S\<close>.
\<close>

definition cellOf :: "board \<Rightarrow> pos \<Rightarrow> cell option" where
  "cellOf b p = cellAt b (fst p) (snd p)"

definition nbrs :: "board \<Rightarrow> pos \<Rightarrow> pos set" where
  "nbrs b p = set (neighbors (int (length b)) (fst p) (snd p))"

definition sameStep :: "board \<Rightarrow> cell option \<Rightarrow> (pos \<times> pos) set" where
  "sameStep b k = {(p, q). q \<in> nbrs b p \<and> cellOf b q = k \<and> k \<noteq> Some EMPTY}"

definition component :: "board \<Rightarrow> pos \<Rightarrow> pos set" where
  "component b p = (sameStep b (cellOf b p))\<^sup>* `` {p}"

definition libertiesOf :: "board \<Rightarrow> pos set \<Rightarrow> pos set" where
  "libertiesOf b S = {q. \<exists>p \<in> S. q \<in> nbrs b p \<and> cellOf b q = Some EMPTY}"

lemma set_setAdd [simp]: "set (setAdd x xs) = insert x (set xs)"
  by (auto simp: setAdd_def)

lemma distinct_setAdd [simp]: "distinct (setAdd x xs) = distinct xs"
  by (auto simp: setAdd_def)

lemma floodScan_libs:
  "set (fst (floodScan b k st ns ls)) = set (fst ls) \<union> {q \<in> set ns. cellOf b q = Some EMPTY}"
  by (induction b k st ns ls rule: floodScan.induct) (auto simp: Let_def cellOf_def)

lemma floodScan_pushed:
  "set (snd (floodScan b k st ns ls)) =
     set (snd ls) \<union> {q \<in> set ns. cellOf b q \<noteq> Some EMPTY \<and> cellOf b q = k \<and> q \<notin> set st}"
  by (induction b k st ns ls rule: floodScan.induct) (auto simp: Let_def cellOf_def)

lemma floodScan_distinct:
  "distinct (fst ls) \<Longrightarrow> distinct (fst (floodScan b k st ns ls))"
  by (induction b k st ns ls rule: floodScan.induct) (auto simp: Let_def)

lemma floodScan_pushed_step:
  "set (snd (floodScan b k st (neighbors (int (length b)) (fst p) (snd p)) (libs, stack))) =
     set stack \<union> (sameStep b k `` {p} - set st)"
  unfolding floodScan_pushed by (auto simp: sameStep_def nbrs_def)

lemma floodScan_libs_step:
  "set (fst (floodScan b k st (neighbors (int (length b)) (fst p) (snd p)) (libs, stack))) =
     set libs \<union> libertiesOf b {p}"
  unfolding floodScan_libs by (auto simp: libertiesOf_def nbrs_def)

lemma floodLoop_push:
  assumes "(rr, cc) \<notin> set stones"
  shows "\<exists>libs' stack'.
     floodLoop b k ((rr, cc) # stack) stones libs = floodLoop b k stack' (stones @ [(rr, cc)]) libs' \<and>
     set stack' = set stack \<union> (sameStep b k `` {(rr, cc)} - set (stones @ [(rr, cc)])) \<and>
     set libs' = set libs \<union> libertiesOf b {(rr, cc)} \<and>
     (distinct libs \<longrightarrow> distinct libs') \<and>
     floodScan b k (stones @ [(rr, cc)]) (neighbors (int (length b)) rr cc) (libs, stack) = (libs', stack')"
proof -
  obtain libs' stack' where sc:
    "floodScan b k (stones @ [(rr, cc)]) (neighbors (int (length b)) rr cc) (libs, stack) = (libs', stack')"
    by (cases "floodScan b k (stones @ [(rr, cc)]) (neighbors (int (length b)) rr cc) (libs, stack)")
  have "set stack' = set stack \<union> (sameStep b k `` {(rr, cc)} - set (stones @ [(rr, cc)]))"
    using floodScan_pushed_step [of b k "stones @ [(rr, cc)]" "(rr, cc)" libs stack] sc by simp
  moreover have "set libs' = set libs \<union> libertiesOf b {(rr, cc)}"
    using floodScan_libs_step [of b k "stones @ [(rr, cc)]" "(rr, cc)" libs stack] sc by simp
  moreover have "distinct libs \<longrightarrow> distinct libs'"
    using floodScan_distinct [of "(libs, stack)" b k "stones @ [(rr, cc)]" "neighbors (int (length b)) rr cc"] sc
    by simp
  moreover have "floodLoop b k ((rr, cc) # stack) stones libs = floodLoop b k stack' (stones @ [(rr, cc)]) libs'"
    using assms sc by simp
  ultimately show ?thesis using sc by blast
qed

lemma floodLoop_induct [consumes 0, case_names empty seen fresh]:
  assumes "\<And>b k stones libs. P b k [] stones libs"
    and "\<And>b k p stack stones libs. p \<in> set stones \<Longrightarrow>
       floodLoop b k (p # stack) stones libs = floodLoop b k stack stones libs \<Longrightarrow>
       P b k stack stones libs \<Longrightarrow> P b k (p # stack) stones libs"
    and "\<And>b k p stack stones libs libs' stack'. p \<notin> set stones \<Longrightarrow>
       floodLoop b k (p # stack) stones libs = floodLoop b k stack' (stones @ [p]) libs' \<Longrightarrow>
       set stack' = set stack \<union> (sameStep b k `` {p} - set (stones @ [p])) \<Longrightarrow>
       set libs' = set libs \<union> libertiesOf b {p} \<Longrightarrow>
       (distinct libs \<longrightarrow> distinct libs') \<Longrightarrow>
       P b k stack' (stones @ [p]) libs' \<Longrightarrow> P b k (p # stack) stones libs"
  shows "P b k stack stones libs"
proof (induction b k stack stones libs rule: floodLoop.induct)
  case (1 b col stones libs)
  show ?case by (rule assms(1))
next
  case (2 b col rr cc stack stones libs)
  show ?case
  proof (cases "(rr, cc) \<in> set stones")
    case True
    then have "floodLoop b col ((rr, cc) # stack) stones libs = floodLoop b col stack stones libs"
      by simp
    with True 2(1) assms(2) show ?thesis by blast
  next
    case False
    from floodLoop_push [OF False, of b col stack libs]
    obtain libs' stack' where
      eq: "floodLoop b col ((rr, cc) # stack) stones libs = floodLoop b col stack' (stones @ [(rr, cc)]) libs'"
      and st: "set stack' = set stack \<union> (sameStep b col `` {(rr, cc)} - set (stones @ [(rr, cc)]))"
      and li: "set libs' = set libs \<union> libertiesOf b {(rr, cc)}"
      and di: "distinct libs \<longrightarrow> distinct libs'"
      and sc: "floodScan b col (stones @ [(rr, cc)]) (neighbors (int (length b)) rr cc) (libs, stack) = (libs', stack')"
      by blast
    have ih: "P b col stack' (stones @ [(rr, cc)]) libs'"
      by (rule 2(2) [OF False refl sc [symmetric] refl])
    show ?thesis by (rule assms(3) [OF False eq st li di ih])
  qed
qed


declare floodLoop.simps(2) [simp del]

lemma floodLoop_mono:
  "set stones \<union> set stack \<subseteq> set (fst (floodLoop b k stack stones libs))"
proof (induction b k stack stones libs rule: floodLoop_induct)
  case (empty b k stones libs)
  show ?case by simp
next
  case (seen b k p stack stones libs)
  then show ?case by auto
next
  case (fresh b k p stack stones libs libs' stack')
  then show ?case by auto
qed

lemma floodLoop_upper:
  "set (fst (floodLoop b k stack stones libs)) \<subseteq> set stones \<union> (sameStep b k)\<^sup>* `` set stack"
proof (induction b k stack stones libs rule: floodLoop_induct)
  case (empty b k stones libs)
  show ?case by simp
next
  case (seen b k p stack stones libs)
  then show ?case by auto
next
  case (fresh b k p stack stones libs libs' stack')
  have "(sameStep b k)\<^sup>* `` set stack' \<subseteq> (sameStep b k)\<^sup>* `` set (p # stack)"
  proof
    fix q assume "q \<in> (sameStep b k)\<^sup>* `` set stack'"
    then obtain s where s: "s \<in> set stack'" "(s, q) \<in> (sameStep b k)\<^sup>*" by blast
    show "q \<in> (sameStep b k)\<^sup>* `` set (p # stack)"
    proof (cases "s \<in> set stack")
      case True
      with s show ?thesis by auto
    next
      case False
      with s fresh(3) have "(p, s) \<in> sameStep b k" by auto
      with s have "(p, q) \<in> (sameStep b k)\<^sup>*" by (meson converse_rtrancl_into_rtrancl)
      then show ?thesis by auto
    qed
  qed
  with fresh(6) fresh(2) show ?case by auto
qed

lemma floodLoop_closed:
  "sameStep b k `` set stones \<subseteq> set stones \<union> set stack \<Longrightarrow>
   sameStep b k `` set (fst (floodLoop b k stack stones libs))
     \<subseteq> set (fst (floodLoop b k stack stones libs))"
proof (induction b k stack stones libs rule: floodLoop_induct)
  case (empty b k stones libs)
  then show ?case by simp
next
  case (seen b k p stack stones libs)
  from seen(1,4) have "sameStep b k `` set stones \<subseteq> set stones \<union> set stack" by auto
  from seen(3) [OF this] show ?case using seen(2) by simp
next
  case (fresh b k p stack stones libs libs' stack')
  have "sameStep b k `` set (stones @ [p]) \<subseteq> set (stones @ [p]) \<union> set stack'"
    using fresh(7) fresh(3) by auto
  from fresh(6) [OF this] show ?case using fresh(2) by simp
qed

lemma floodLoop_libs:
  "set (snd (floodLoop b k stack stones libs)) =
     set libs \<union> libertiesOf b (set (fst (floodLoop b k stack stones libs)) - set stones)"
proof (induction b k stack stones libs rule: floodLoop_induct)
  case (empty b k stones libs)
  show ?case by (simp add: libertiesOf_def)
next
  case (seen b k p stack stones libs)
  then show ?case by simp
next
  case (fresh b k p stack stones libs libs' stack')
  have "p \<in> set (fst (floodLoop b k stack' (stones @ [p]) libs'))"
    using floodLoop_mono [of "stones @ [p]" stack' b k libs'] by auto
  then have "set (fst (floodLoop b k stack' (stones @ [p]) libs')) - set stones =
      insert p (set (fst (floodLoop b k stack' (stones @ [p]) libs')) - set (stones @ [p]))"
    using fresh(1) by auto
  then have "libertiesOf b (set (fst (floodLoop b k stack' (stones @ [p]) libs')) - set stones) =
      libertiesOf b {p} \<union>
      libertiesOf b (set (fst (floodLoop b k stack' (stones @ [p]) libs')) - set (stones @ [p]))"
    by (auto simp: libertiesOf_def)
  with fresh(6) fresh(4) fresh(2) show ?case by auto
qed

lemma floodLoop_distinct:
  "distinct stones \<Longrightarrow> distinct libs \<Longrightarrow>
   distinct (fst (floodLoop b k stack stones libs)) \<and> distinct (snd (floodLoop b k stack stones libs))"
proof (induction b k stack stones libs rule: floodLoop_induct)
  case (empty b k stones libs)
  then show ?case by simp
next
  case (seen b k p stack stones libs)
  then show ?case by simp
next
  case (fresh b k p stack stones libs libs' stack')
  then show ?case by simp
qed

lemma rtrancl_Image_closed:
  assumes "R `` A \<subseteq> A"
  shows "R\<^sup>* `` A \<subseteq> A"
proof
  fix q assume "q \<in> R\<^sup>* `` A"
  then obtain p where "p \<in> A" "(p, q) \<in> R\<^sup>*" by blast
  from this(2) this(1) show "q \<in> A"
    by (induction rule: rtrancl_induct) (use assms in auto)
qed

lemma floodLoop_start:
  "set (fst (floodLoop b k [p] [] [])) = (sameStep b k)\<^sup>* `` {p}"
proof
  show "set (fst (floodLoop b k [p] [] [])) \<subseteq> (sameStep b k)\<^sup>* `` {p}"
    using floodLoop_upper [of b k "[p]" "[]" "[]"] by simp
next
  let ?S = "set (fst (floodLoop b k [p] [] []))"
  have "p \<in> ?S" using floodLoop_mono [of "[]" "[p]" b k "[]"] by simp
  moreover have "sameStep b k `` ?S \<subseteq> ?S" by (rule floodLoop_closed) simp
  then have "(sameStep b k)\<^sup>* `` ?S \<subseteq> ?S" by (rule rtrancl_Image_closed)
  ultimately show "(sameStep b k)\<^sup>* `` {p} \<subseteq> ?S" by blast
qed

lemma floodGroup_eq:
  assumes "0 \<le> r" "r < int (length b)"
  shows "\<exists>g. floodGroup b r c = Inr g \<and> grp_color g = cellAt b r c \<and>
     set (grp_stones g) = component b (r, c) \<and>
     set (grp_liberties g) = libertiesOf b (component b (r, c)) \<and>
     distinct (grp_stones g) \<and> distinct (grp_liberties g)"
proof -
  let ?res = "floodLoop b (cellAt b r c) [(r, c)] [] []"
  have g: "floodGroup b r c =
      Inr \<lparr>grp_color = cellAt b r c, grp_stones = fst ?res, grp_liberties = snd ?res\<rparr>"
    using assms by (simp add: floodGroup_def Let_def split: prod.splits)
  have st: "set (fst ?res) = component b (r, c)"
    by (simp add: floodLoop_start component_def cellOf_def)
  have "set (snd ?res) = libertiesOf b (set (fst ?res))"
    using floodLoop_libs [of b "cellAt b r c" "[(r, c)]" "[]" "[]"] by simp
  with st have li: "set (snd ?res) = libertiesOf b (component b (r, c))" by simp
  have "distinct (fst ?res) \<and> distinct (snd ?res)"
    by (rule floodLoop_distinct) simp_all
  with g st li show ?thesis by simp
qed

section \<open>Boards after writes\<close>

lemma cellAt_setCell:
  "cellAt (setCell b r c v) r' c' =
     (if r' = r \<and> c' = c \<and> cellAt b r c \<noteq> None then Some v else cellAt b r' c')"
proof (cases "0 \<le> r \<and> r < int (length b) \<and> 0 \<le> c \<and> c < int (length (b ! nat r))")
  case False
  then show ?thesis by (auto simp: setCell_def cellAt_def Let_def)
next
  case True
  then have sc: "setCell b r c v = b[nat r := (b ! nat r)[nat c := v]]" by (simp add: setCell_def)
  show ?thesis
  proof (cases "r' = r")
    case True
    with \<open>0 \<le> r \<and> r < int (length b) \<and> 0 \<le> c \<and> c < int (length (b ! nat r))\<close> show ?thesis
      unfolding sc by (auto simp: cellAt_def Let_def nth_list_update)
  next
    case False
    then have "0 \<le> r' \<Longrightarrow> nat r' \<noteq> nat r" using True by auto
    then show ?thesis unfolding sc using False by (auto simp: cellAt_def Let_def)
  qed
qed

lemma cellOf_setCell:
  "cellOf (setCell b r c v) q = (if q = (r, c) \<and> cellOf b (r, c) \<noteq> None then Some v else cellOf b q)"
  by (cases q) (simp add: cellOf_def cellAt_setCell)

lemma cellOf_removeStones:
  "cellOf (fst (removeStones b ps n)) q =
     (if q \<in> set ps \<and> cellOf b q \<noteq> None then Some EMPTY else cellOf b q)"
  by (induction b ps n rule: removeStones.induct) (auto simp: cellOf_setCell)

lemma snd_removeStones: "snd (removeStones b ps n) = n + length ps"
  by (induction b ps n rule: removeStones.induct) auto

lemma shape_removeStones: "map length (fst (removeStones b ps n)) = map length b"
  by (induction b ps n rule: removeStones.induct) auto

lemma nbrs_shape: "length b' = length b \<Longrightarrow> nbrs b' p = nbrs b p"
  by (simp add: nbrs_def)

lemma OTHER_ne [simp]:
  "OTHER col \<noteq> col" "OTHER col \<noteq> EMPTY" "col \<noteq> OTHER col" "EMPTY \<noteq> OTHER col"
  by (auto simp: OTHER_def)

lemma component_refl: "p \<in> component b p"
  by (simp add: component_def)

lemma component_color: "q \<in> component b p \<Longrightarrow> cellOf b q = cellOf b p"
  unfolding component_def
proof -
  assume "q \<in> (sameStep b (cellOf b p))\<^sup>* `` {p}"
  then have "(p, q) \<in> (sameStep b (cellOf b p))\<^sup>*" by simp
  then show ?thesis by (induction rule: rtrancl_induct) (auto simp: sameStep_def)
qed

lemma component_trans: "q \<in> component b p \<Longrightarrow> component b q \<subseteq> component b p"
proof
  fix x assume q: "q \<in> component b p" and x: "x \<in> component b q"
  from q have c: "cellOf b q = cellOf b p" by (rule component_color)
  from q x show "x \<in> component b p"
    unfolding component_def c by (auto intro: rtrancl_trans)
qed

lemma libertiesOf_mono: "S \<subseteq> T \<Longrightarrow> libertiesOf b S \<subseteq> libertiesOf b T"
  by (auto simp: libertiesOf_def)

lemma component_frame:
  assumes len: "length b' = length b"
    and same: "\<And>q. q \<in> component b p \<Longrightarrow> cellOf b' q = cellOf b q"
    and nonew: "\<And>q. cellOf b' q = cellOf b p \<Longrightarrow> cellOf b q = cellOf b p"
  shows "component b' p = component b p"
proof -
  have kp: "cellOf b' p = cellOf b p" by (rule same) (rule component_refl)
  have "q \<in> component b p" if "(p, q) \<in> (sameStep b' (cellOf b p))\<^sup>*" for q
    using that
  proof (induction rule: rtrancl_induct)
    case base
    show ?case by (rule component_refl)
  next
    case (step y z)
    from step(2) have "z \<in> nbrs b y" "cellOf b' z = cellOf b p" "cellOf b p \<noteq> Some EMPTY"
      by (auto simp: sameStep_def nbrs_shape [OF len])
    with nonew have "(y, z) \<in> sameStep b (cellOf b p)" by (auto simp: sameStep_def)
    with step(3) show ?case unfolding component_def by (auto intro: rtrancl_into_rtrancl)
  qed
  moreover have "(p, q) \<in> (sameStep b' (cellOf b p))\<^sup>*" if "(p, q) \<in> (sameStep b (cellOf b p))\<^sup>*" for q
    using that
  proof (induction rule: rtrancl_induct)
    case base
    show ?case by simp
  next
    case (step y z)
    from step(1,2) have "z \<in> component b p" unfolding component_def by (auto intro: rtrancl_into_rtrancl)
    then have "cellOf b' z = cellOf b z" by (rule same)
    with step(2) have "(y, z) \<in> sameStep b' (cellOf b p)"
      by (auto simp: sameStep_def nbrs_shape [OF len])
    with step(3) show ?case by (auto intro: rtrancl_into_rtrancl)
  qed
  ultimately show ?thesis unfolding component_def kp by auto
qed

section \<open>The capture loop\<close>

text \<open>
  \<open>frees opp b b'\<close>: the board \<open>b'\<close> is \<open>b\<close> with some stones of colour \<open>opp\<close>
  taken off.
\<close>

definition frees :: "cell \<Rightarrow> board \<Rightarrow> board \<Rightarrow> bool" where
  "frees opp b b' \<longleftrightarrow>
     map length b' = map length b \<and>
     (\<forall>q. cellOf b' q = cellOf b q \<or> (cellOf b q = Some opp \<and> cellOf b' q = Some EMPTY))"

lemma frees_refl: "frees opp b b"
  by (simp add: frees_def)

lemma frees_trans: "frees opp b b' \<Longrightarrow> frees opp b' b'' \<Longrightarrow> frees opp b b''"
  unfolding frees_def by (metis OTHER_ne(2) option.inject)


lemma captureStep_cases:
  assumes n: "0 \<le> fst n" "fst n < int (length X)"
  shows "\<exists>X' cap' seen'. captureStep opp (X, cap, seen) n = Inr (X', cap', seen') \<and>
     ((X' = X \<and> cap' = cap) \<or>
      (cellOf X n = Some opp \<and> libertiesOf X (component X n) = {} \<and>
       map length X' = map length X \<and>
       (\<forall>q. cellOf X' q = (if q \<in> component X n then Some EMPTY else cellOf X q)) \<and>
       cap < cap'))"
proof -
  obtain nr nc where nn: "n = (nr, nc)" by (cases n) auto
  from floodGroup_eq [of nr X nc] n nn obtain g where
    g: "floodGroup X nr nc = Inr g" and st: "set (grp_stones g) = component X n"
    and li: "set (grp_liberties g) = libertiesOf X (component X n)"
    by auto
  show ?thesis
  proof (cases "cellAt X nr nc = Some opp \<and> (nr, nc) \<notin> set seen \<and> grp_liberties g = []")
    case False
    then show ?thesis using g by (auto simp: captureStep_def nn)
  next
    case True
    obtain X' cap' where rs: "removeStones X (grp_stones g) cap = (X', cap')"
      by (cases "removeStones X (grp_stones g) cap")
    have step: "captureStep opp (X, cap, seen) n = Inr (X', cap', setAdd (nr, nc) seen)"
      using True g rs by (simp add: captureStep_def nn)
    have col: "cellOf X n = Some opp" using True by (simp add: cellOf_def nn)
    have cells: "cellOf X' q = (if q \<in> component X n then Some EMPTY else cellOf X q)" for q
    proof -
      have "q \<in> component X n \<Longrightarrow> cellOf X q \<noteq> None"
        using component_color [of q X n] col by simp
      then show ?thesis
        using cellOf_removeStones [of X "grp_stones g" cap q] rs st by auto
    qed
    have "n \<in> set (grp_stones g)" using st component_refl by simp
    then have "grp_stones g \<noteq> []" by auto
    then have cap: "cap < cap'"
      using snd_removeStones [of X "grp_stones g" cap] rs by (cases "grp_stones g") auto
    have sh: "map length X' = map length X"
      using shape_removeStones [of X "grp_stones g" cap] rs by simp
    have "libertiesOf X (component X n) = {}" using True li by simp
    with step col cells cap sh show ?thesis by blast
  qed
qed

definition captureInv :: "cell \<Rightarrow> board \<Rightarrow> pos set \<Rightarrow> board \<times> nat \<times> pos list \<Rightarrow> bool" where
  "captureInv opp X0 N st \<longleftrightarrow>
     (case st of (X, cap, seen) \<Rightarrow>
        frees opp X0 X \<and> (0 < cap \<longrightarrow> (\<exists>n \<in> N. cellOf X n = Some EMPTY)))"

lemma captureStep_inv:
  assumes inv: "captureInv opp X0 N st" and n: "n \<in> N" "0 \<le> fst n" "fst n < int (length X0)"
  shows "\<exists>st'. captureStep opp st n = Inr st' \<and> captureInv opp X0 N st'"
proof -
  obtain X cap seen where st: "st = (X, cap, seen)" by (cases st) auto
  from inv st have fr: "frees opp X0 X" and em: "0 < cap \<longrightarrow> (\<exists>n \<in> N. cellOf X n = Some EMPTY)"
    by (auto simp: captureInv_def)
  from fr have "length X = length X0" unfolding frees_def by (metis length_map)
  with n have "fst n < int (length X)" by simp
  from captureStep_cases [OF n(2) this, of opp cap seen]
  obtain X' cap' seen' where step: "captureStep opp (X, cap, seen) n = Inr (X', cap', seen')"
    and alt: "(X' = X \<and> cap' = cap) \<or>
      (cellOf X n = Some opp \<and> libertiesOf X (component X n) = {} \<and>
       map length X' = map length X \<and>
       (\<forall>q. cellOf X' q = (if q \<in> component X n then Some EMPTY else cellOf X q)) \<and>
       cap < cap')"
    by blast
  from alt have "captureInv opp X0 N (X', cap', seen')"
  proof
    assume "X' = X \<and> cap' = cap"
    with fr em show ?thesis by (simp add: captureInv_def)
  next
    assume c: "cellOf X n = Some opp \<and> libertiesOf X (component X n) = {} \<and>
       map length X' = map length X \<and>
       (\<forall>q. cellOf X' q = (if q \<in> component X n then Some EMPTY else cellOf X q)) \<and>
       cap < cap'"
    then have "cellOf X q = Some opp" if "q \<in> component X n" for q
      using component_color [OF that] by simp
    with c have "frees opp X X'" unfolding frees_def by auto
    with fr have "frees opp X0 X'" by (rule frees_trans)
    moreover from c have "cellOf X' n = Some EMPTY" using component_refl [of n X] by metis
    ultimately show ?thesis using n(1) by (auto simp: captureInv_def)
  qed
  with step st show ?thesis by auto
qed

lemma forEach_inv:
  assumes "I s" and "\<And>s i. i \<in> set xs \<Longrightarrow> I s \<Longrightarrow> \<exists>s'. body s i = Inr s' \<and> I s'"
  shows "\<exists>s'. forEach xs body s = Inr s' \<and> I s'"
  using assms
proof (induction xs arbitrary: s)
  case Nil
  then show ?case by simp
next
  case (Cons i xs)
  from Cons.prems(2) [of i s] Cons.prems(1) obtain s1 where s1: "body s i = Inr s1" "I s1" by auto
  from Cons.IH [OF s1(2)] Cons.prems(2) obtain s' where "forEach xs body s1 = Inr s'" "I s'"
    by (metis list.set_intros(2))
  with s1 show ?case by auto
qed

lemma capture_loop:
  assumes e: "cellAt b r c = Some EMPTY"
  shows "\<exists>X cap seen self.
     forEach (neighbors (int (length b)) r c) (captureStep (OTHER col))
       (setCell (cloneBoard b) r c col, 0, []) = Inr (X, cap, seen) \<and>
     floodGroup X r c = Inr self \<and>
     frees (OTHER col) (setCell b r c col) X \<and>
     (0 < cap \<longrightarrow> (\<exists>n \<in> nbrs b (r, c). cellOf X n = Some EMPTY)) \<and>
     set (grp_liberties self) = libertiesOf X (component X (r, c)) \<and>
     placeAndCapture b r c col =
       (if length (grp_liberties self) = 0 then Inr None
        else Inr (Some \<lparr>res_board = X, res_captured = cap\<rparr>))"
proof -
  from e have r: "0 \<le> r" "r < int (length b)" by (auto simp: cellAt_def split: if_splits)
  let ?X0 = "setCell b r c col"
  let ?N = "nbrs b (r, c)"
  have "captureInv (OTHER col) ?X0 ?N (?X0, 0, [])"
    by (simp add: captureInv_def frees_refl)
  moreover have "\<exists>st'. captureStep (OTHER col) st n = Inr st' \<and> captureInv (OTHER col) ?X0 ?N st'"
    if "n \<in> set (neighbors (int (length b)) r c)" "captureInv (OTHER col) ?X0 ?N st" for st n
    using that neighbors_rows [of n "int (length b)" r c]
    by (intro captureStep_inv) (auto simp: nbrs_def)
  ultimately obtain st' where fe: "forEach (neighbors (int (length b)) r c) (captureStep (OTHER col))
       (?X0, 0, []) = Inr st'" and inv: "captureInv (OTHER col) ?X0 ?N st'"
    using forEach_inv [of "captureInv (OTHER col) ?X0 ?N" "(?X0, 0, [])"
        "neighbors (int (length b)) r c" "captureStep (OTHER col)"]
    by blast
  obtain X cap seen where st': "st' = (X, cap, seen)" by (cases st') auto
  from inv st' have fr: "frees (OTHER col) ?X0 X"
    and em: "0 < cap \<longrightarrow> (\<exists>n \<in> ?N. cellOf X n = Some EMPTY)"
    by (auto simp: captureInv_def)
  from fr have "length X = length b" unfolding frees_def by (metis length_map length_setCell)
  with r floodGroup_eq [of r X c] obtain self where
    self: "floodGroup X r c = Inr self"
    "set (grp_liberties self) = libertiesOf X (component X (r, c))"
    by auto
  have "placeAndCapture b r c col =
       (if length (grp_liberties self) = 0 then Inr None
        else Inr (Some \<lparr>res_board = X, res_captured = cap\<rparr>))"
    using e r fe st' self(1) by (simp add: placeAndCapture_def Let_def)
  with fe st' self fr em show ?thesis by auto
qed

lemma nbrs_cells: "q \<in> nbrs b p \<Longrightarrow> q \<in> cells b"
  using neighbors_cells [of b "fst p" "snd p"] by (auto simp: nbrs_def)

lemma nbrs_sym: "q \<in> nbrs b p \<Longrightarrow> p \<in> cells b \<Longrightarrow> p \<in> nbrs b q"
  unfolding nbrs_def set_neighbors by (cases p; cases q) (auto simp: cells_def inBounds_def)

lemma component_sym:
  assumes "q \<in> component b p" "p \<in> cells b"
  shows "p \<in> component b q"
proof -
  let ?R = "sameStep b (cellOf b p)"
  from assms(1) have "(p, q) \<in> ?R\<^sup>*" by (simp add: component_def)
  then have "(q, p) \<in> ?R\<^sup>* \<and> q \<in> cells b \<and> cellOf b q = cellOf b p"
  proof (induction rule: rtrancl_induct)
    case base
    show ?case using assms(2) by simp
  next
    case (step y z)
    from step(2) have z: "z \<in> nbrs b y" "cellOf b z = cellOf b p" "cellOf b p \<noteq> Some EMPTY"
      by (auto simp: sameStep_def)
    with step(3) have "(z, y) \<in> ?R" by (auto simp: sameStep_def intro: nbrs_sym)
    with step(3) have "(z, p) \<in> ?R\<^sup>*" by (auto intro: converse_rtrancl_into_rtrancl)
    with z show ?case by (auto intro: nbrs_cells)
  qed
  then show ?thesis by (simp add: component_def)
qed

lemma component_eq:
  assumes "q \<in> component b p" "p \<in> cells b"
  shows "component b q = component b p"
  using component_trans [OF assms(1)] component_trans [OF component_sym [OF assms]] by blast

lemma captureStep_cases2:
  assumes n: "0 \<le> fst n" "fst n < int (length X)"
  shows "\<exists>X' cap' seen'. captureStep opp (X, cap, seen) n = Inr (X', cap', seen') \<and>
     set seen' \<subseteq> insert n (set seen) \<and>
     ((X' = X \<and> (cellOf X n = Some opp \<longrightarrow> n \<in> set seen \<or> libertiesOf X (component X n) \<noteq> {})) \<or>
      (cellOf X n = Some opp \<and> libertiesOf X (component X n) = {} \<and>
       map length X' = map length X \<and>
       (\<forall>q. cellOf X' q = (if q \<in> component X n then Some EMPTY else cellOf X q))))"
proof -
  obtain nr nc where nn: "n = (nr, nc)" by (cases n) auto
  from floodGroup_eq [of nr X nc] n nn obtain g where
    g: "floodGroup X nr nc = Inr g" and st: "set (grp_stones g) = component X n"
    and li: "set (grp_liberties g) = libertiesOf X (component X n)"
    by auto
  show ?thesis
  proof (cases "cellAt X nr nc = Some opp \<and> (nr, nc) \<notin> set seen \<and> grp_liberties g = []")
    case False
    then show ?thesis using g li by (auto simp: captureStep_def nn cellOf_def)
  next
    case True
    obtain X' cap' where rs: "removeStones X (grp_stones g) cap = (X', cap')"
      by (cases "removeStones X (grp_stones g) cap")
    have step: "captureStep opp (X, cap, seen) n = Inr (X', cap', setAdd (nr, nc) seen)"
      using True g rs by (simp add: captureStep_def nn)
    have col: "cellOf X n = Some opp" using True by (simp add: cellOf_def nn)
    have cells: "cellOf X' q = (if q \<in> component X n then Some EMPTY else cellOf X q)" for q
    proof -
      have "q \<in> component X n \<Longrightarrow> cellOf X q \<noteq> None"
        using component_color [of q X n] col by simp
      then show ?thesis
        using cellOf_removeStones [of X "grp_stones g" cap q] rs st by auto
    qed
    have sh: "map length X' = map length X"
      using shape_removeStones [of X "grp_stones g" cap] rs by simp
    have "libertiesOf X (component X n) = {}" using True li by simp
    with step col cells sh nn show ?thesis by auto
  qed
qed

lemma libertiesOf_frame:
  assumes "length b' = length b" "\<And>q. cellOf b q = Some EMPTY \<Longrightarrow> cellOf b' q = Some EMPTY"
  shows "libertiesOf b S \<subseteq> libertiesOf b' S"
  using assms(2) unfolding libertiesOf_def nbrs_shape [OF assms(1)] by blast

lemma capture_keeps_live:
  assumes G: "libertiesOf X (component X n) = {}" and n: "n \<in> cells X"
    and sh: "map length X' = map length X"
    and X': "\<And>q. cellOf X' q = (if q \<in> component X n then Some EMPTY else cellOf X q)"
    and p: "p \<in> cells X" "cellOf X' p = Some opp" "opp \<noteq> EMPTY"
    and live: "cellOf X p = Some opp \<Longrightarrow> libertiesOf X (component X p) \<noteq> {}"
  shows "libertiesOf X' (component X' p) \<noteq> {}"
proof -
  from sh have len: "length X' = length X" by (metis length_map)
  from p X' have pG: "p \<notin> component X n" and cp: "cellOf X p = Some opp"
    by (auto split: if_splits)
  from live cp have lp: "libertiesOf X (component X p) \<noteq> {}" by simp
  have disj: "q \<notin> component X n" if "q \<in> component X p" for q
  proof
    assume "q \<in> component X n"
    then have "component X q = component X n" using n by (rule component_eq)
    moreover from that have "component X q = component X p" using p(1) by (rule component_eq)
    ultimately show False using G lp by simp
  qed
  have "component X' p = component X p"
  proof (rule component_frame [OF len])
    fix q assume "q \<in> component X p"
    then show "cellOf X' q = cellOf X q" using disj X' by simp
  next
    fix q assume "cellOf X' q = cellOf X p"
    then show "cellOf X q = cellOf X p" using X' cp p(3) by (auto split: if_splits)
  qed
  moreover have "libertiesOf X (component X p) \<subseteq> libertiesOf X' (component X p)"
    by (rule libertiesOf_frame [OF len]) (simp add: X')
  ultimately show ?thesis using lp by auto
qed

lemma cells_shape: "length b' = length b \<Longrightarrow> cells b' = cells b"
  by (simp add: cells_def)

lemma capture_loop_live:
  assumes "forEach ns (captureStep opp) (X, cap, seen) = Inr (X', cap', seen')"
    and "distinct ns" and "set ns \<subseteq> cells X" and "set seen \<inter> set ns = {}"
    and "P \<subseteq> cells X" and "opp \<noteq> EMPTY"
    and "\<forall>p \<in> P. cellOf X p = Some opp \<longrightarrow> libertiesOf X (component X p) \<noteq> {}"
  shows "\<forall>p \<in> P \<union> set ns. cellOf X' p = Some opp \<longrightarrow> libertiesOf X' (component X' p) \<noteq> {}"
  using assms
proof (induction ns arbitrary: X cap seen P)
  case Nil
  then show ?case by simp
next
  case (Cons n ns)
  from Cons.prems(3) have nc: "n \<in> cells X" by simp
  then have nr: "0 \<le> fst n" "fst n < int (length X)" by (auto simp: cells_def)
  from captureStep_cases2 [OF nr, of opp cap seen]
  obtain X1 cap1 seen1 where step: "captureStep opp (X, cap, seen) n = Inr (X1, cap1, seen1)"
    and seen1: "set seen1 \<subseteq> insert n (set seen)"
    and alt: "(X1 = X \<and> (cellOf X n = Some opp \<longrightarrow> n \<in> set seen \<or> libertiesOf X (component X n) \<noteq> {})) \<or>
      (cellOf X n = Some opp \<and> libertiesOf X (component X n) = {} \<and>
       map length X1 = map length X \<and>
       (\<forall>q. cellOf X1 q = (if q \<in> component X n then Some EMPTY else cellOf X q)))"
    by blast
  from step Cons.prems(1) have rest: "forEach ns (captureStep opp) (X1, cap1, seen1) = Inr (X', cap', seen')"
    by simp
  from alt have len: "length X1 = length X" by (metis length_map)
  have live: "\<forall>p \<in> insert n P. cellOf X1 p = Some opp \<longrightarrow> libertiesOf X1 (component X1 p) \<noteq> {}"
    using alt
  proof
    assume a: "X1 = X \<and> (cellOf X n = Some opp \<longrightarrow> n \<in> set seen \<or> libertiesOf X (component X n) \<noteq> {})"
    moreover from Cons.prems(4) have "n \<notin> set seen" by auto
    ultimately show ?thesis using Cons.prems(7) by auto
  next
    assume a: "cellOf X n = Some opp \<and> libertiesOf X (component X n) = {} \<and>
       map length X1 = map length X \<and>
       (\<forall>q. cellOf X1 q = (if q \<in> component X n then Some EMPTY else cellOf X q))"
    then have X1q: "cellOf X1 q = (if q \<in> component X n then Some EMPTY else cellOf X q)" for q
      by blast
    show ?thesis
    proof (intro ballI impI)
      fix p assume p: "p \<in> insert n P" "cellOf X1 p = Some opp"
      have "p \<noteq> n"
      proof
        assume "p = n"
        with X1q [of n] component_refl [of n X] have "cellOf X1 p = Some EMPTY" by simp
        with p(2) Cons.prems(6) show False by simp
      qed
      with p(1) have pP: "p \<in> P" by simp
      show "libertiesOf X1 (component X1 p) \<noteq> {}"
      proof (rule capture_keeps_live [where X = X and n = n and opp = opp])
        show "libertiesOf X (component X n) = {}" using a by simp
        show "n \<in> cells X" by (rule nc)
        show "map length X1 = map length X" using a by simp
        show "cellOf X1 q = (if q \<in> component X n then Some EMPTY else cellOf X q)" for q
          by (rule X1q)
        show "p \<in> cells X" using pP Cons.prems(5) by auto
        show "cellOf X1 p = Some opp" by (rule p(2))
        show "opp \<noteq> EMPTY" by (rule Cons.prems(6))
        show "cellOf X p = Some opp \<Longrightarrow> libertiesOf X (component X p) \<noteq> {}"
          using Cons.prems(7) pP by simp
      qed
    qed
  qed
  have "\<forall>p \<in> insert n P \<union> set ns. cellOf X' p = Some opp \<longrightarrow> libertiesOf X' (component X' p) \<noteq> {}"
  proof (rule Cons.IH [OF rest])
    show "distinct ns" using Cons.prems(2) by simp
    show "set ns \<subseteq> cells X1" using Cons.prems(3) cells_shape [OF len] by simp
    show "set seen1 \<inter> set ns = {}" using seen1 Cons.prems(2,4) by auto
    show "insert n P \<subseteq> cells X1" using Cons.prems(5) nc cells_shape [OF len] by simp
    show "opp \<noteq> EMPTY" by (rule Cons.prems(6))
    show "\<forall>p \<in> insert n P. cellOf X1 p = Some opp \<longrightarrow> libertiesOf X1 (component X1 p) \<noteq> {}"
      by (rule live)
  qed
  then show ?case by simp
qed

lemma distinct_neighbors: "distinct (neighbors sz r c)"
  by (simp add: neighbors_def)

section \<open>The board in the store\<close>

text \<open>
  \<open>placeAndCapture\<close> writes into arrays, and its caller's board must not see the writes.
  Here the rows are objects in a store: a store is the list of the row arrays that exist,
  an address is an index into it, and a board is the array of the addresses of its rows
  (the outer array is never written to after it is built).  \<^verbatim>\<open>cloneBoard\<close> allocates a
  new row for every row (\<^verbatim>\<open>row.slice()\<close>); \<^verbatim>\<open>newB[r][c] = v\<close> updates the row object
  \<^verbatim>\<open>newB[r]\<close> in place.  A read of the board through the store is a read of
  \<open>deref h rows\<close>.  The reads of \<open>placeAndCapture\<close> that can raise precede its first
  write, so the store returned with an error is the store of that moment.
\<close>

type_synonym heap = "cell list list"

definition deref :: "heap \<Rightarrow> nat list \<Rightarrow> board" where
  "deref h rows = map (\<lambda>a. h ! a) rows"

definition cloneBoard_st :: "heap \<Rightarrow> nat list \<Rightarrow> heap \<times> nat list" where
  "cloneBoard_st h rows =
     (h @ map (\<lambda>a. h ! a) rows, [length h ..< length h + length rows])"

definition setCell_st :: "heap \<Rightarrow> nat list \<Rightarrow> int \<Rightarrow> int \<Rightarrow> cell \<Rightarrow> heap" where
  "setCell_st h rows r c v =
     (if 0 \<le> r \<and> r < int (length rows) \<and> 0 \<le> c \<and> c < int (length (h ! (rows ! nat r)))
      then h[rows ! nat r := (h ! (rows ! nat r))[nat c := v]] else h)"

fun removeStones_st :: "heap \<Rightarrow> nat list \<Rightarrow> pos list \<Rightarrow> nat \<Rightarrow> heap \<times> nat" where
  "removeStones_st h newB [] captured = (h, captured)"
| "removeStones_st h newB ((sr, sc) # rest) captured =
     removeStones_st (setCell_st h newB sr sc EMPTY) newB rest (Suc captured)"

definition captureStep_st ::
  "nat list \<Rightarrow> cell \<Rightarrow> heap \<times> nat \<times> pos list \<Rightarrow> pos \<Rightarrow> error + heap \<times> nat \<times> pos list"
where
  "captureStep_st newB opp st n =
     (case st of (h, captured, seen) \<Rightarrow>
      case n of (nr, nc) \<Rightarrow>
        if cellAt (deref h newB) nr nc = Some opp then
          (if (nr, nc) \<in> set seen then Inr (h, captured, seen)
           else
             (case floodGroup (deref h newB) nr nc of
                Inl e \<Rightarrow> Inl e
              | Inr grp \<Rightarrow>
                  if length (grp_liberties grp) = 0 then
                    (case removeStones_st h newB (grp_stones grp) captured of
                       (h', captured') \<Rightarrow> Inr (h', captured', setAdd (nr, nc) seen))
                  else Inr (h, captured, setAdd (nr, nc) seen)))
        else Inr (h, captured, seen))"

definition placeAndCapture_st ::
  "heap \<Rightarrow> nat list \<Rightarrow> int \<Rightarrow> int \<Rightarrow> cell \<Rightarrow> heap \<times> (error + (nat list \<times> nat) option)"
where
  "placeAndCapture_st h b r c col =
     (let sz = int (length b) in
      if \<not> (0 \<le> r \<and> r < sz) then (h, Inl TypeError)
      else if cellAt (deref h b) r c \<noteq> Some EMPTY then (h, Inr None)
      else
        (case cloneBoard_st h b of
           (h1, newB) \<Rightarrow>
             (let h2 = setCell_st h1 newB r c col;
                  opp = OTHER col
              in case forEach (neighbors sz r c) (captureStep_st newB opp) (h2, 0, []) of
                   Inl e \<Rightarrow> (h2, Inl e)
                 | Inr (h3, captured, seen) \<Rightarrow>
                     (case floodGroup (deref h3 newB) r c of
                        Inl e \<Rightarrow> (h3, Inl e)
                      | Inr self \<Rightarrow>
                          if length (grp_liberties self) = 0 then (h3, Inr None)
                          else (h3, Inr (Some (newB, captured)))))))"

definition placedOf :: "heap \<Rightarrow> error + (nat list \<times> nat) option \<Rightarrow> error + placed option" where
  "placedOf h res =
     map_sum id (map_option (\<lambda>(newB, captured).
       \<lparr>res_board = deref h newB, res_captured = captured\<rparr>)) res"


text \<open>
  The rows of the copy are new objects: distinct addresses at or above the size \<open>n0\<close>
  of the store before the copy.
\<close>

definition freshRows :: "nat \<Rightarrow> heap \<Rightarrow> nat list \<Rightarrow> bool" where
  "freshRows n0 h newB \<longleftrightarrow> distinct newB \<and> (\<forall>a \<in> set newB. n0 \<le> a \<and> a < length h)"

lemma setCell_st_abs:
  assumes "freshRows n0 h newB"
  shows "deref (setCell_st h newB r c v) newB = setCell (deref h newB) r c v"
    and "take n0 (setCell_st h newB r c v) = take n0 h"
    and "freshRows n0 (setCell_st h newB r c v) newB"
proof -
  from assms have d: "distinct newB" and rng: "\<And>a. a \<in> set newB \<Longrightarrow> n0 \<le> a \<and> a < length h"
    by (auto simp: freshRows_def)
  show "take n0 (setCell_st h newB r c v) = take n0 h"
    using rng by (auto simp: setCell_st_def)
  show "freshRows n0 (setCell_st h newB r c v) newB"
    using assms by (auto simp: setCell_st_def freshRows_def)
  show "deref (setCell_st h newB r c v) newB = setCell (deref h newB) r c v"
  proof (cases "0 \<le> r \<and> r < int (length newB) \<and> 0 \<le> c \<and> c < int (length (h ! (newB ! nat r)))")
    case False
    then show ?thesis by (auto simp: setCell_st_def setCell_def deref_def)
  next
    case True
    then have i: "nat r < length newB" by auto
    have "map (\<lambda>a. h[newB ! nat r := (h ! (newB ! nat r))[nat c := v]] ! a) newB
        = (map (\<lambda>a. h ! a) newB)[nat r := (h ! (newB ! nat r))[nat c := v]]"
    proof (rule nth_equalityI)
      show "length (map (\<lambda>a. h[newB ! nat r := (h ! (newB ! nat r))[nat c := v]] ! a) newB)
          = length ((map (\<lambda>a. h ! a) newB)[nat r := (h ! (newB ! nat r))[nat c := v]])"
        by simp
    next
      fix j assume "j < length (map (\<lambda>a. h[newB ! nat r := (h ! (newB ! nat r))[nat c := v]] ! a) newB)"
      then have j: "j < length newB" by simp
      show "map (\<lambda>a. h[newB ! nat r := (h ! (newB ! nat r))[nat c := v]] ! a) newB ! j
          = (map (\<lambda>a. h ! a) newB)[nat r := (h ! (newB ! nat r))[nat c := v]] ! j"
      proof (cases "j = nat r")
        case True
        with i rng [of "newB ! nat r"] show ?thesis by simp
      next
        case False
        with d i j have "newB ! j \<noteq> newB ! nat r" by (simp add: nth_eq_iff_index_eq)
        with j False show ?thesis by simp
      qed
    qed
    with True i show ?thesis by (simp add: setCell_st_def setCell_def deref_def)
  qed
qed


lemma removeStones_st_abs:
  assumes "freshRows n0 h newB"
  shows "removeStones (deref h newB) ps n =
       (deref (fst (removeStones_st h newB ps n)) newB, snd (removeStones_st h newB ps n)) \<and>
     take n0 (fst (removeStones_st h newB ps n)) = take n0 h \<and>
     freshRows n0 (fst (removeStones_st h newB ps n)) newB"
  using assms
proof (induction h newB ps n rule: removeStones_st.induct)
  case (1 h newB captured)
  then show ?case by simp
next
  case (2 h newB sr sc rest captured)
  from setCell_st_abs [OF 2(2), of sr sc EMPTY] 2(1) show ?case by simp
qed

definition absState :: "nat \<Rightarrow> heap \<Rightarrow> nat list \<Rightarrow> heap \<times> nat \<times> pos list \<Rightarrow> board \<times> nat \<times> pos list \<Rightarrow> bool" where
  "absState n0 h0 newB s t \<longleftrightarrow>
     (case s of (h, captured, seen) \<Rightarrow>
        t = (deref h newB, captured, seen) \<and> take n0 h = h0 \<and> freshRows n0 h newB)"

lemma captureStep_st_abs:
  assumes "absState n0 h0 newB s t"
  shows "rel_sum (=) (absState n0 h0 newB) (captureStep_st newB opp s n) (captureStep opp t n)"
proof -
  obtain h captured seen where s: "s = (h, captured, seen)" by (cases s) auto
  obtain nr nc where n: "n = (nr, nc)" by (cases n) auto
  from assms s have t: "t = (deref h newB, captured, seen)" and tk: "take n0 h = h0"
    and fr: "freshRows n0 h newB"
    by (auto simp: absState_def)
  have same: "absState n0 h0 newB (h, captured, seen') (deref h newB, captured, seen')" for seen'
    using tk fr by (simp add: absState_def)
  have rm: "absState n0 h0 newB (h', c', seen') (b', c'', seen')"
    if "removeStones_st h newB ps captured = (h', c')"
      and "removeStones (deref h newB) ps captured = (b', c'')" for ps seen' h' c' b' c''
    using removeStones_st_abs [OF fr, of ps captured] tk that by (simp add: absState_def)
  show ?thesis
    unfolding s t n captureStep_st_def captureStep_def
    using same rm
    by (auto split: sum.splits prod.splits)
qed

lemma forEach_rel:
  assumes "R s t" and "\<And>s t i. R s t \<Longrightarrow> rel_sum (=) R (f s i) (g t i)"
  shows "rel_sum (=) R (forEach xs f s) (forEach xs g t)"
  using assms(1)
proof (induction xs arbitrary: s t)
  case Nil
  then show ?case by simp
next
  case (Cons i xs)
  from assms(2) [OF Cons.prems, of i] show ?case
    by (cases "f s i"; cases "g t i") (auto intro: Cons.IH)
qed


lemma length_deref [simp]: "length (deref h rows) = length rows"
  by (simp add: deref_def)

lemma cloneBoard_st_fresh:
  assumes "\<forall>a \<in> set rows. a < length h" and "cloneBoard_st h rows = (h1, newB)"
  shows "freshRows (length h) h1 newB" and "deref h1 newB = deref h rows"
    and "take (length h) h1 = h"
proof -
  from assms(2) have h1: "h1 = h @ map (\<lambda>a. h ! a) rows"
    and nb: "newB = [length h ..< length h + length rows]"
    by (auto simp: cloneBoard_st_def)
  show "freshRows (length h) h1 newB" by (auto simp: freshRows_def h1 nb)
  show "take (length h) h1 = h" by (simp add: h1)
  show "deref h1 newB = deref h rows"
    unfolding deref_def h1 nb by (rule nth_equalityI) (auto simp: nth_append)
qed

lemma placeAndCapture_st_refines:
  assumes wf: "\<forall>a \<in> set rows. a < length h"
  shows "\<exists>h' res. placeAndCapture_st h rows r c col = (h', res) \<and> take (length h) h' = h \<and>
     placedOf h' res = placeAndCapture (deref h rows) r c col"
proof (cases "0 \<le> r \<and> r < int (length rows) \<and> cellAt (deref h rows) r c = Some EMPTY")
  case False
  then show ?thesis
    by (auto simp: placeAndCapture_st_def placeAndCapture_def placedOf_def Let_def)
next
  case True
  obtain h1 newB where cl: "cloneBoard_st h rows = (h1, newB)" by (cases "cloneBoard_st h rows")
  note fresh = cloneBoard_st_fresh [OF wf cl]
  let ?h2 = "setCell_st h1 newB r c col"
  let ?b = "deref h rows"
  have len: "length ?b = length rows" by (simp add: deref_def)
  have init: "absState (length h) h newB (?h2, 0, []) (setCell (cloneBoard ?b) r c col, 0, [])"
    using setCell_st_abs [OF fresh(1), of r c col] fresh(2,3) by (simp add: absState_def)
  have sim: "rel_sum (=) (absState (length h) h newB)
      (forEach (neighbors (int (length rows)) r c) (captureStep_st newB (OTHER col)) (?h2, 0, []))
      (forEach (neighbors (int (length rows)) r c) (captureStep (OTHER col))
        (setCell (cloneBoard ?b) r c col, 0, []))"
    using init
  proof (rule forEach_rel [where R = "absState (length h) h newB"])
    fix s t i
    assume "absState (length h) h newB s t"
    then show "rel_sum (=) (absState (length h) h newB)
        (captureStep_st newB (OTHER col) s i) (captureStep (OTHER col) t i)"
      by (rule captureStep_st_abs)
  qed
  show ?thesis
  proof (cases "forEach (neighbors (int (length rows)) r c) (captureStep_st newB (OTHER col)) (?h2, 0, [])")
    case (Inl e)
    with sim have "forEach (neighbors (int (length rows)) r c) (captureStep (OTHER col))
        (setCell (cloneBoard ?b) r c col, 0, []) = Inl e"
      by (cases "forEach (neighbors (int (length rows)) r c) (captureStep (OTHER col))
        (setCell (cloneBoard ?b) r c col, 0, [])") auto
    with Inl True cl len show ?thesis
      using setCell_st_abs(2) [OF fresh(1), of r c col] fresh(3)
      by (simp add: placeAndCapture_st_def placeAndCapture_def placedOf_def Let_def del: cloneBoard_id)
  next
    case (Inr s')
    obtain h3 captured seen where s': "s' = (h3, captured, seen)" by (cases s') auto
    from sim Inr s' have fa: "forEach (neighbors (int (length rows)) r c) (captureStep (OTHER col))
        (setCell (cloneBoard ?b) r c col, 0, []) = Inr (deref h3 newB, captured, seen)"
      and tk: "take (length h) h3 = h"
      by (cases "forEach (neighbors (int (length rows)) r c) (captureStep (OTHER col))
        (setCell (cloneBoard ?b) r c col, 0, [])"; auto simp: absState_def)+
    from Inr s' fa tk True cl len show ?thesis
      by (cases "floodGroup (deref h3 newB) r c")
        (simp_all add: placeAndCapture_st_def placeAndCapture_def placedOf_def Let_def
          del: cloneBoard_id)
  qed
qed

section \<open>Claims about placing a stone\<close>

text \<open>
  Two positions for Black at \<open>(0, 0)\<close>: on \<open>rescueBoard\<close> the stone has no empty
  neighbour but takes both white stones; on \<open>suicideBoard\<close> it takes nothing.
\<close>

definition rescueBoard :: board where
  "rescueBoard = [[EMPTY, WHITE, BLACK], [WHITE, BLACK, EMPTY], [BLACK, EMPTY, EMPTY]]"

definition suicideBoard :: board where
  "suicideBoard = [[EMPTY, WHITE], [WHITE, EMPTY]]"

text \<open>
  C1.  For every board, colour and empty target cell, the loop over the neighbours ends
  in a board \<open>X\<close> on which the placed stone's own group \<open>self\<close> is then computed.  On
  \<open>X\<close> every neighbouring stone of the opponent belongs to a group with a liberty: the
  groups without one have been taken off.  If anything was captured, the own group has a
  liberty; if it has one the placement is returned with board \<open>X\<close>; if it has none the
  result is \<^verbatim>\<open>null\<close>, and run on a store the call leaves every row that existed before,
  so the caller's board, as it was.
\<close>

theorem placeAndCapture_captures_first:
  assumes "cellAt b r c = Some EMPTY"
  shows "\<exists>X cap seen self.
     forEach (neighbors (int (length b)) r c) (captureStep (OTHER col))
       (setCell (cloneBoard b) r c col, 0, []) = Inr (X, cap, seen) \<and>
     floodGroup X r c = Inr self \<and>
     (\<forall>n \<in> set (neighbors (int (length b)) r c).
        cellAt X (fst n) (snd n) = Some (OTHER col) \<longrightarrow>
        (\<exists>g. floodGroup X (fst n) (snd n) = Inr g \<and> grp_liberties g \<noteq> [])) \<and>
     (0 < cap \<longrightarrow> grp_liberties self \<noteq> []) \<and>
     (grp_liberties self \<noteq> [] \<longrightarrow>
        placeAndCapture b r c col = Inr (Some \<lparr>res_board = X, res_captured = cap\<rparr>)) \<and>
     (grp_liberties self = [] \<longrightarrow>
        placeAndCapture b r c col = Inr None \<and>
        (\<forall>h rows. (\<forall>a \<in> set rows. a < length h) \<and> deref h rows = b \<longrightarrow>
           (\<exists>h'. placeAndCapture_st h rows r c col = (h', Inr None) \<and>
              take (length h) h' = h \<and> deref h' rows = b)))"
proof -
  let ?ns = "neighbors (int (length b)) r c"
  let ?X0 = "setCell (cloneBoard b) r c col"
  from capture_loop [OF assms, of col] obtain X cap seen self where
    fe: "forEach ?ns (captureStep (OTHER col)) (?X0, 0, []) = Inr (X, cap, seen)"
    and self: "floodGroup X r c = Inr self"
    and fr: "frees (OTHER col) (setCell b r c col) X"
    and em: "0 < cap \<longrightarrow> (\<exists>n \<in> nbrs b (r, c). cellOf X n = Some EMPTY)"
    and li: "set (grp_liberties self) = libertiesOf X (component X (r, c))"
    and pc: "placeAndCapture b r c col =
       (if length (grp_liberties self) = 0 then Inr None
        else Inr (Some \<lparr>res_board = X, res_captured = cap\<rparr>))"
    by blast
  from fr have len: "length X = length b" unfolding frees_def by (metis length_map length_setCell)
  have live: "\<forall>p \<in> {} \<union> set ?ns. cellOf X p = Some (OTHER col) \<longrightarrow>
      libertiesOf X (component X p) \<noteq> {}"
  proof (rule capture_loop_live [OF fe])
    show "distinct ?ns" by (rule distinct_neighbors)
    show "set ?ns \<subseteq> cells ?X0" using neighbors_cells [of b r c] by (simp add: cells_def)
  qed simp_all
  have A: "\<forall>n \<in> set ?ns. cellAt X (fst n) (snd n) = Some (OTHER col) \<longrightarrow>
        (\<exists>g. floodGroup X (fst n) (snd n) = Inr g \<and> grp_liberties g \<noteq> [])"
  proof (intro ballI impI)
    fix n assume n: "n \<in> set ?ns" "cellAt X (fst n) (snd n) = Some (OTHER col)"
    then have "libertiesOf X (component X n) \<noteq> {}" using live by (simp add: cellOf_def)
    moreover from n(1) have "0 \<le> fst n" "fst n < int (length X)"
      using neighbors_rows [of n "int (length b)" r c] len by auto
    from floodGroup_eq [OF this, of "snd n"] obtain g where
      "floodGroup X (fst n) (snd n) = Inr g"
      "set (grp_liberties g) = libertiesOf X (component X n)"
      by auto
    ultimately show "\<exists>g. floodGroup X (fst n) (snd n) = Inr g \<and> grp_liberties g \<noteq> []"
      by auto
  qed
  have C: "0 < cap \<longrightarrow> grp_liberties self \<noteq> []"
  proof
    assume "0 < cap"
    with em obtain n where n: "n \<in> nbrs b (r, c)" "cellOf X n = Some EMPTY" by blast
    then have "n \<in> libertiesOf X {(r, c)}"
      using nbrs_shape [OF len] by (auto simp: libertiesOf_def)
    also have "\<dots> \<subseteq> libertiesOf X (component X (r, c))"
      by (rule libertiesOf_mono) (simp add: component_refl)
    finally show "grp_liberties self \<noteq> []" using li by auto
  qed
  have D: "\<forall>h rows. (\<forall>a \<in> set rows. a < length h) \<and> deref h rows = b \<longrightarrow>
           (\<exists>h'. placeAndCapture_st h rows r c col = (h', Inr None) \<and>
              take (length h) h' = h \<and> deref h' rows = b)"
    if none: "placeAndCapture b r c col = Inr None"
  proof (intro allI impI)
    fix h rows assume wf: "(\<forall>a \<in> set rows. a < length h) \<and> deref h rows = b"
    from placeAndCapture_st_refines [of rows h r c col] wf none obtain h' res where
      st: "placeAndCapture_st h rows r c col = (h', res)" and tk: "take (length h) h' = h"
      and ab: "placedOf h' res = Inr None"
      by auto
    from ab have "res = Inr None" by (cases res) (auto simp: placedOf_def)
    moreover have "deref h' rows = deref h rows"
      unfolding deref_def
    proof (rule map_cong [OF refl])
      fix a assume "a \<in> set rows"
      with wf have "a < length h" by simp
      then have "take (length h) h' ! a = h' ! a" by simp
      with tk show "h' ! a = h ! a" by simp
    qed
    ultimately show "\<exists>h'. placeAndCapture_st h rows r c col = (h', Inr None) \<and>
              take (length h) h' = h \<and> deref h' rows = b"
      using st tk wf by simp
  qed
  from fe self A C D pc show ?thesis
    by (intro exI [of _ X] exI [of _ cap] exI [of _ seen] exI [of _ self]) simp
qed


text \<open>
  On \<open>rescueBoard\<close> two stones are captured and the placement is returned; on
  \<open>suicideBoard\<close> the result is \<^verbatim>\<open>null\<close> and the two rows of the caller are unchanged.
\<close>

theorem placeAndCapture_captures_first_witness:
  "cellAt rescueBoard 0 0 = Some EMPTY \<and>
   placeAndCapture rescueBoard 0 0 BLACK =
     Inr (Some \<lparr>res_board = [[BLACK, EMPTY, BLACK], [EMPTY, BLACK, EMPTY], [BLACK, EMPTY, EMPTY]],
       res_captured = 2\<rparr>) \<and>
   cellAt suicideBoard 0 0 = Some EMPTY \<and>
   placeAndCapture suicideBoard 0 0 BLACK = Inr None \<and>
   (\<exists>h'. placeAndCapture_st suicideBoard [0, 1] 0 0 BLACK = (h', Inr None) \<and>
      take 2 h' = suicideBoard \<and> deref h' [0, 1] = suicideBoard)"
proof -
  have e1: "cellAt rescueBoard 0 0 = Some EMPTY"
    by code_simp
  have f1: "forEach (neighbors (int (length rescueBoard)) 0 0) (captureStep (OTHER BLACK))
      (setCell (cloneBoard rescueBoard) 0 0 BLACK, 0, []) =
      Inr ([[BLACK, EMPTY, BLACK], [EMPTY, BLACK, EMPTY], [BLACK, EMPTY, EMPTY]], 2, [(1, 0), (0, 1)])"
    by code_simp
  from placeAndCapture_captures_first [OF e1, of BLACK] f1
  have p1: "placeAndCapture rescueBoard 0 0 BLACK =
     Inr (Some \<lparr>res_board = [[BLACK, EMPTY, BLACK], [EMPTY, BLACK, EMPTY], [BLACK, EMPTY, EMPTY]],
       res_captured = 2\<rparr>)"
    by auto
  have e2: "cellAt suicideBoard 0 0 = Some EMPTY"
    by code_simp
  have f2: "forEach (neighbors (int (length suicideBoard)) 0 0) (captureStep (OTHER BLACK))
      (setCell (cloneBoard suicideBoard) 0 0 BLACK, 0, []) =
      Inr ([[BLACK, WHITE], [WHITE, EMPTY]], 0, [(1, 0), (0, 1)])"
    by code_simp
  have g2: "floodGroup [[BLACK, WHITE], [WHITE, EMPTY]] 0 0 =
      Inr \<lparr>grp_color = Some BLACK, grp_stones = [(0, 0)], grp_liberties = []\<rparr>"
    by code_simp
  have wf: "(\<forall>a \<in> set [0, 1]. a < length suicideBoard) \<and> deref suicideBoard [0, 1] = suicideBoard"
    by (simp add: suicideBoard_def deref_def)
  from placeAndCapture_captures_first [OF e2, of BLACK] f2 g2
  have p2: "placeAndCapture suicideBoard 0 0 BLACK = Inr None"
    and st: "\<forall>h rows. (\<forall>a \<in> set rows. a < length h) \<and> deref h rows = suicideBoard \<longrightarrow>
           (\<exists>h'. placeAndCapture_st h rows 0 0 BLACK = (h', Inr None) \<and>
              take (length h) h' = h \<and> deref h' rows = suicideBoard)"
    by auto
  from st wf have "\<exists>h'. placeAndCapture_st suicideBoard [0, 1] 0 0 BLACK = (h', Inr None) \<and>
      take (length suicideBoard) h' = suicideBoard \<and> deref h' [0, 1] = suicideBoard"
    by blast
  moreover have "length suicideBoard = 2" by (simp add: suicideBoard_def)
  ultimately show ?thesis using e1 p1 e2 p2 by simp
qed

text \<open>
  The stones of one colour whose group, as \<open>floodGroup\<close> finds it, has no liberty.  A
  board contains no zero-liberty group of colour \<open>col\<close> when \<open>deadStones b col\<close> is
  empty.
\<close>

definition hasNoLiberty :: "board \<Rightarrow> int \<Rightarrow> int \<Rightarrow> bool" where
  "hasNoLiberty b r c =
     (case floodGroup b r c of Inl e \<Rightarrow> False | Inr g \<Rightarrow> length (grp_liberties g) = 0)"

definition deadStones :: "board \<Rightarrow> cell \<Rightarrow> pos list" where
  "deadStones b col =
     [(r, c). r \<leftarrow> [0 .. int (length b) - 1], c \<leftarrow> [0 .. int (length (b ! nat r)) - 1],
        cellAt b r c = Some col, hasNoLiberty b r c]"


lemma hasNoLiberty_iff:
  "0 \<le> r \<Longrightarrow> r < int (length b) \<Longrightarrow>
   hasNoLiberty b r c \<longleftrightarrow> libertiesOf b (component b (r, c)) = {}"
  using floodGroup_eq [of r b c] by (auto simp: hasNoLiberty_def)

lemma deadStones_Nil_iff:
  "deadStones b col = [] \<longleftrightarrow>
     (\<forall>p. cellOf b p = Some col \<longrightarrow> libertiesOf b (component b p) \<noteq> {})"
proof
  assume d: "deadStones b col = []"
  show "\<forall>p. cellOf b p = Some col \<longrightarrow> libertiesOf b (component b p) \<noteq> {}"
  proof (intro allI impI)
    fix p assume p: "cellOf b p = Some col"
    obtain r c where rc: "p = (r, c)" by (cases p) auto
    from p rc have rng: "0 \<le> r" "r < int (length b)" "0 \<le> c" "c < int (length (b ! nat r))"
      by (auto simp: cellOf_def cellAt_def Let_def split: if_splits)
    show "libertiesOf b (component b p) \<noteq> {}"
    proof
      assume "libertiesOf b (component b p) = {}"
      then have "hasNoLiberty b r c" using hasNoLiberty_iff [OF rng(1,2)] rc by simp
      with p rc rng have "(r, c) \<in> set (deadStones b col)"
        unfolding deadStones_def by (auto simp: cellOf_def)
      with d show False by simp
    qed
  qed
next
  assume a: "\<forall>p. cellOf b p = Some col \<longrightarrow> libertiesOf b (component b p) \<noteq> {}"
  have "p \<notin> set (deadStones b col)" for p
  proof
    assume "p \<in> set (deadStones b col)"
    then obtain r c where rc: "p = (r, c)" and rng: "0 \<le> r" "r < int (length b)"
      and col: "cellAt b r c = Some col" and no: "hasNoLiberty b r c"
      unfolding deadStones_def by auto
    from no have "libertiesOf b (component b (r, c)) = {}"
      using hasNoLiberty_iff [OF rng] by simp
    with a col show False by (auto simp: cellOf_def)
  qed
  then show "deadStones b col = []" by (cases "deadStones b col") auto
qed


text \<open>
  C2, as stated for every board: the function looks at the groups next to the placed stone
  only.  On a board where the black corner stone is already without a liberty, Black's
  move at \<open>(2, 2)\<close> is returned, and the returned board still holds that stone.
\<close>

theorem placeAndCapture_dead_group_counterexample:
  "placeAndCapture [[BLACK, WHITE, EMPTY], [WHITE, EMPTY, EMPTY], [EMPTY, EMPTY, EMPTY]] 2 2 BLACK =
     Inr (Some \<lparr>res_board = [[BLACK, WHITE, EMPTY], [WHITE, EMPTY, EMPTY], [EMPTY, EMPTY, BLACK]],
       res_captured = 0\<rparr>) \<and>
   floodGroup [[BLACK, WHITE, EMPTY], [WHITE, EMPTY, EMPTY], [EMPTY, EMPTY, BLACK]] 0 0 =
     Inr \<lparr>grp_color = Some BLACK, grp_stones = [(0, 0)], grp_liberties = []\<rparr> \<and>
   deadStones [[BLACK, WHITE, EMPTY], [WHITE, EMPTY, EMPTY], [EMPTY, EMPTY, BLACK]] BLACK = [(0, 0)]"
  by code_simp

text \<open>
  C2, amended: for every board that holds no zero-liberty group of the mover's colour
  (\<^verbatim>\<open>BLACK\<close> or \<^verbatim>\<open>WHITE\<close>), whenever \<open>placeAndCapture\<close> succeeds the board it returns
  holds no zero-liberty group of the mover's colour.
\<close>

theorem placeAndCapture_no_dead_group:
  assumes pc: "placeAndCapture b r c col = Inr (Some res)"
    and col: "col \<noteq> EMPTY"
    and dead: "deadStones b col = []"
  shows "deadStones (res_board res) col = []"
proof -
  from pc have e: "cellAt b r c = Some EMPTY"
    by (auto simp: placeAndCapture_def Let_def split: if_splits)
  from capture_loop [OF e, of col] obtain X cap seen self where
    "forEach (neighbors (int (length b)) r c) (captureStep (OTHER col))
       (setCell (cloneBoard b) r c col, 0, []) = Inr (X, cap, seen)"
    and "floodGroup X r c = Inr self"
    and fr: "frees (OTHER col) (setCell b r c col) X"
    and "0 < cap \<longrightarrow> (\<exists>n \<in> nbrs b (r, c). cellOf X n = Some EMPTY)"
    and li: "set (grp_liberties self) = libertiesOf X (component X (r, c))"
    and eq: "placeAndCapture b r c col =
       (if length (grp_liberties self) = 0 then Inr None
        else Inr (Some \<lparr>res_board = X, res_captured = cap\<rparr>))"
    by (elim exE conjE)
  from eq pc have res: "res_board res = X" and self: "grp_liberties self \<noteq> []"
    by (auto split: if_splits)
  from fr have len: "length b = length X" unfolding frees_def by (metis length_map length_setCell)
  have X0: "cellOf (setCell b r c col) q = (if q = (r, c) then Some col else cellOf b q)" for q
  proof -
    from e have "cellOf b (r, c) \<noteq> None" by (simp add: cellOf_def)
    then show ?thesis by (simp add: cellOf_setCell)
  qed
  have Xq: "cellOf X q = cellOf (setCell b r c col) q \<or>
      (cellOf (setCell b r c col) q = Some (OTHER col) \<and> cellOf X q = Some EMPTY)" for q
    using fr unfolding frees_def by blast
  have Xrc: "cellOf X (r, c) = Some col"
    using Xq [of "(r, c)"] X0 [of "(r, c)"] by auto
  have keep: "cellOf X q = Some col \<Longrightarrow> q \<noteq> (r, c) \<Longrightarrow> cellOf b q = Some col" for q
    using Xq [of q] X0 [of q] col by auto
  from e have e': "cellOf b (r, c) = Some EMPTY" by (simp add: cellOf_def)
  have stay: "cellOf b q = Some col \<Longrightarrow> cellOf X q = Some col" for q
    using Xq [of q] X0 [of q] e' col by (auto split: if_splits)
  have empty: "cellOf b q = Some EMPTY \<Longrightarrow> q \<noteq> (r, c) \<Longrightarrow> cellOf X q = Some EMPTY" for q
    using Xq [of q] X0 [of q] by auto
  have "libertiesOf X (component X p) \<noteq> {}" if p: "cellOf X p = Some col" for p
  proof (cases "(r, c) \<in> component X p")
    case True
    then have "component X (r, c) \<subseteq> component X p" by (rule component_trans)
    then have "libertiesOf X (component X (r, c)) \<subseteq> libertiesOf X (component X p)"
      by (rule libertiesOf_mono)
    with li self show ?thesis by auto
  next
    case False
    have inS: "cellOf X q = Some col \<and> q \<noteq> (r, c)" if "q \<in> component X p" for q
      using that component_color [OF that] p False by auto
    have cb: "component b p = component X p"
    proof (rule component_frame [OF len])
      fix q assume "q \<in> component X p"
      from inS [OF this] keep show "cellOf b q = cellOf X q" by simp
    next
      fix q assume "cellOf b q = cellOf X p"
      with p stay show "cellOf X q = cellOf X p" by simp
    qed
    have "cellOf b p = Some col" using inS [OF component_refl] keep by simp
    with dead have "libertiesOf b (component b p) \<noteq> {}" unfolding deadStones_Nil_iff by blast
    then obtain s l where s: "s \<in> component X p" and l: "l \<in> nbrs b s" "cellOf b l = Some EMPTY"
      unfolding cb libertiesOf_def by blast
    have "l \<noteq> (r, c)"
    proof
      assume "l = (r, c)"
      with l(1) Xrc col have "(s, (r, c)) \<in> sameStep X (cellOf X p)"
        using nbrs_shape [OF len [symmetric]] p by (auto simp: sameStep_def)
      with s have "(r, c) \<in> component X p"
        unfolding component_def by (auto intro: rtrancl_into_rtrancl)
      with False show False by simp
    qed
    with l empty have "cellOf X l = Some EMPTY" by simp
    with s l(1) have "l \<in> libertiesOf X (component X p)"
      using nbrs_shape [OF len [symmetric]] by (auto simp: libertiesOf_def)
    then show ?thesis by auto
  qed
  then show ?thesis unfolding res deadStones_Nil_iff by blast
qed

text \<open>
  Black's capture at \<open>(0, 0)\<close> of \<open>rescueBoard\<close>: no black stone is without a
  liberty before or after.
\<close>

theorem placeAndCapture_no_dead_group_witness:
  "placeAndCapture rescueBoard 0 0 BLACK =
     Inr (Some \<lparr>res_board = [[BLACK, EMPTY, BLACK], [EMPTY, BLACK, EMPTY], [BLACK, EMPTY, EMPTY]],
       res_captured = 2\<rparr>) \<and>
   BLACK \<noteq> EMPTY \<and> deadStones rescueBoard BLACK = [] \<and>
   deadStones [[BLACK, EMPTY, BLACK], [EMPTY, BLACK, EMPTY], [BLACK, EMPTY, EMPTY]] BLACK = []"
proof -
  have pc: "placeAndCapture rescueBoard 0 0 BLACK =
     Inr (Some \<lparr>res_board = [[BLACK, EMPTY, BLACK], [EMPTY, BLACK, EMPTY], [BLACK, EMPTY, EMPTY]],
       res_captured = 2\<rparr>)"
    by code_simp
  have col: "BLACK \<noteq> EMPTY" by simp
  have dead: "deadStones rescueBoard BLACK = []" by code_simp
  from placeAndCapture_no_dead_group [OF pc col dead] pc dead show ?thesis by simp
qed

section \<open>The list of legal moves\<close>

lemma forEach_append:
  assumes "\<And>i s. i \<in> set xs \<Longrightarrow> body s i = Inr (s @ f i)"
  shows "forEach xs body s = Inr (s @ concat (map f xs))"
  using assms by (induction xs arbitrary: s) auto

lemma legalCell_append:
  assumes "0 \<le> r" "r < int (length b)"
  shows "legalCell b col ko r list c = Inr (list @ cellMoves b col ko r c)"
proof -
  from placeAndCapture_Inr [OF assms, of c col]
  obtain res where "placeAndCapture b r c col = Inr res" by blast
  then show ?thesis
    by (cases res) (simp_all add: legalCell_def cellMoves_def Let_def)
qed

lemma legalMoves_eq: "legalMoves b col ko = Inr (placements b col ko @ [passMove b])"
proof -
  define rng where "rng = [0 .. int (length b) - 1]"
  define rowMoves where "rowMoves = (\<lambda>r. concat (map (cellMoves b col ko r) rng))"
  define rowLoop where "rowLoop = (\<lambda>list r. forEach rng (legalCell b col ko r) list)"
  have row: "rowLoop list r = Inr (list @ rowMoves r)" if "r \<in> set rng" for r list
    unfolding rowLoop_def rowMoves_def
  proof (rule forEach_append)
    fix i s
    from that show "legalCell b col ko r s i = Inr (s @ cellMoves b col ko r i)"
      unfolding rng_def by (intro legalCell_append) auto
  qed
  have "forEach rng rowLoop [] = Inr ([] @ concat (map rowMoves rng))"
    by (rule forEach_append) (rule row)
  then have "forEach rng rowLoop [] = Inr (placements b col ko)"
    by (simp add: placements_def rowMoves_def rng_def)
  then show ?thesis
    by (simp add: legalMoves_def Let_def rowLoop_def rng_def)
qed

lemma cellMoves_iff:
  "m \<in> set (cellMoves b col ko r c) \<longleftrightarrow>
     cellAt b r c = Some EMPTY \<and>
     (\<exists>res. placeAndCapture b r c col = Inr (Some res) \<and>
        \<not> (ko \<noteq> None \<and> ko \<noteq> Some [] \<and> Some (boardKey (res_board res)) = ko) \<and>
        m = \<lparr>move_r = r, move_c = c, move_res = res, move_pass = False\<rparr>)"
  by (auto simp: cellMoves_def legalCell_def Let_def split: sum.splits option.splits)

lemma in_upto_pred: "r \<in> {0 .. n - 1} \<longleftrightarrow> 0 \<le> r \<and> r < (n::int)"
  by auto

lemma placements_iff:
  "m \<in> set (placements b col ko) \<longleftrightarrow>
     (\<exists>r c. inBounds (int (length b)) r c \<and> m \<in> set (cellMoves b col ko r c))"
proof -
  have "m \<in> set (placements b col ko) \<longleftrightarrow>
      (\<exists>r \<in> {0 .. int (length b) - 1}. \<exists>c \<in> {0 .. int (length b) - 1}.
         m \<in> set (cellMoves b col ko r c))"
    by (simp add: placements_def)
  also have "\<dots> \<longleftrightarrow>
      (\<exists>r c. inBounds (int (length b)) r c \<and> m \<in> set (cellMoves b col ko r c))"
    unfolding Bex_def in_upto_pred inBounds_def by blast
  finally show ?thesis .
qed

lemma placements_not_pass: "m \<in> set (placements b col ko) \<Longrightarrow> \<not> move_pass m"
  by (auto simp: placements_iff cellMoves_iff)

lemma filter_pass_placements: "filter move_pass (placements b col ko) = []"
  by (auto simp: filter_empty_conv dest: placements_not_pass)

lemma join_Nil: "join sep xs = [] \<Longrightarrow> x \<in> set xs \<Longrightarrow> x = []"
  by (induction sep xs rule: join.induct) auto

lemma join_digits_Nil: "join sep (map (\<lambda>v. [f v]) row) = [] \<Longrightarrow> row = []"
proof (cases row)
  case Nil
  then show ?thesis by simp
next
  case (Cons v vs)
  assume "join sep (map (\<lambda>v. [f v]) row) = []"
  moreover have "[f v] \<in> set (map (\<lambda>v. [f v]) row)" using Cons by simp
  ultimately have "[f v] = []" by (rule join_Nil)
  then show ?thesis by simp
qed

lemma boardKey_Nil:
  assumes "boardKey b = []" "row \<in> set b"
  shows "row = []"
proof -
  have "join [] (map (\<lambda>v. [cellDigit v]) row) \<in> set (map (\<lambda>row. join [] (map (\<lambda>v. [cellDigit v]) row)) b)"
    using assms(2) by simp
  with assms(1) have "join [] (map (\<lambda>v. [cellDigit v]) row) = []"
    unfolding boardKey_def by (rule join_Nil)
  then show ?thesis by (rule join_digits_Nil)
qed

lemma placed_key_nonempty:
  assumes "placeAndCapture b r c col = Inr (Some res)"
  shows "boardKey (res_board res) \<noteq> []"
proof
  assume k: "boardKey (res_board res) = []"
  from assms have r: "0 \<le> r" "r < int (length b)" and e: "cellAt b r c = Some EMPTY"
    by (auto simp: placeAndCapture_def Let_def split: if_splits)
  have sh: "map length (res_board res) = map length b" by (rule placeAndCapture_shape [OF assms])
  then have len: "length (res_board res) = length b" by (metis length_map)
  with r have "res_board res ! nat r \<in> set (res_board res)" by simp
  with k have "res_board res ! nat r = []" by (rule boardKey_Nil)
  moreover have "map length (res_board res) ! nat r = map length b ! nat r"
    using sh by simp
  then have "length (res_board res ! nat r) = length (b ! nat r)"
    using r len by simp
  ultimately show False using e r by (simp add: cellAt_def Let_def split: if_splits)
qed

subsection \<open>Example positions\<close>

text \<open>
  A ko: in \<open>koBoard\<close> White has just captured at \<open>(1, 2)\<close>; Black retaking there
  captures the white stone at \<open>(1, 1)\<close> and gives \<open>koBefore\<close> back.
\<close>

definition koBoard :: board where
  "koBoard =
     [[EMPTY, BLACK, WHITE, EMPTY],
      [BLACK, WHITE, EMPTY, WHITE],
      [EMPTY, BLACK, WHITE, EMPTY],
      [EMPTY, EMPTY, EMPTY, EMPTY]]"

definition koBefore :: board where
  "koBefore =
     [[EMPTY, BLACK, WHITE, EMPTY],
      [BLACK, EMPTY, BLACK, WHITE],
      [EMPTY, BLACK, WHITE, EMPTY],
      [EMPTY, EMPTY, EMPTY, EMPTY]]"

definition koMove :: move where
  "koMove =
     \<lparr>move_r = 1, move_c = 2, move_res = \<lparr>res_board = koBefore, res_captured = 1\<rparr>,
      move_pass = False\<rparr>"

section \<open>Claims about the legal-move list\<close>

text \<open>
  C4.  For every board, colour and previous key (\<open>None\<close> is \<^verbatim>\<open>null\<close>),
  \<open>legalMoves\<close> returns a list with exactly one pass entry; in particular the list is
  never empty.
\<close>

theorem legalMoves_one_pass:
  "\<exists>ms. legalMoves b col koKeyLast = Inr ms \<and> length (filter move_pass ms) = 1 \<and> ms \<noteq> []"
  by (simp add: legalMoves_eq filter_pass_placements passMove_def)

text \<open>
  C10.  The pass entry is the last element of the list, its capture count is 0 and its
  board has the content of the input board; the playout's test \<open>replyIsPass\<close>, which
  looks at the last element only, holds exactly when the pass is the only legal move.
\<close>

theorem legalMoves_pass_last:
  "\<exists>ms. legalMoves b col koKeyLast = Inr ms \<and> ms \<noteq> [] \<and> last ms = passMove b \<and>
     move_pass (last ms) \<and> res_captured (move_res (last ms)) = 0 \<and>
     res_board (move_res (last ms)) = b \<and>
     (replyIsPass ms \<longleftrightarrow> ms = [passMove b])"
  by (simp add: legalMoves_eq passMove_def replyIsPass_def)

text \<open>
  C3, as stated: no element of \<open>legalMoves b col (Some k)\<close> has a resulting board whose
  key is \<open>k\<close>.  The pass entry is appended without the test, and its board is the input
  board: on the empty 2 x 2 board with the key of that board as previous key, the last
  element of the list has the previous key.
\<close>

theorem legalMoves_ko_pass_counterexample:
  "legalMoves (makeBoard 2) BLACK (Some ''00|00'') =
     Inr [\<lparr>move_r = 0, move_c = 0,
            move_res = \<lparr>res_board = [[BLACK, EMPTY], [EMPTY, EMPTY]], res_captured = 0\<rparr>,
            move_pass = False\<rparr>,
          \<lparr>move_r = 0, move_c = 1,
            move_res = \<lparr>res_board = [[EMPTY, BLACK], [EMPTY, EMPTY]], res_captured = 0\<rparr>,
            move_pass = False\<rparr>,
          \<lparr>move_r = 1, move_c = 0,
            move_res = \<lparr>res_board = [[EMPTY, EMPTY], [BLACK, EMPTY]], res_captured = 0\<rparr>,
            move_pass = False\<rparr>,
          \<lparr>move_r = 1, move_c = 1,
            move_res = \<lparr>res_board = [[EMPTY, EMPTY], [EMPTY, BLACK]], res_captured = 0\<rparr>,
            move_pass = False\<rparr>,
          passMove (makeBoard 2)] \<and>
   boardKey (res_board (move_res (passMove (makeBoard 2)))) = ''00|00''"
  by code_simp

text \<open>
  C3, amended: for every board, colour and non-null previous key \<open>k\<close>, no placement
  (non-pass element) of \<open>legalMoves b col (Some k)\<close> has a resulting board whose key is
  \<open>k\<close>; and a placement that \<open>placeAndCapture\<close> accepts on a cell of the board is in
  the list for every previous key (also \<^verbatim>\<open>null\<close>) that differs from its resulting key.
\<close>

theorem legalMoves_simple_ko:
  "(\<exists>ms. legalMoves b col (Some k) = Inr ms \<and>
      (\<forall>m \<in> set ms. \<not> move_pass m \<longrightarrow> boardKey (res_board (move_res m)) \<noteq> k)) \<and>
   (inBounds (int (length b)) r c \<longrightarrow> placeAndCapture b r c col = Inr (Some res) \<longrightarrow>
      koKeyLast \<noteq> Some (boardKey (res_board res)) \<longrightarrow>
      (\<exists>ms. legalMoves b col koKeyLast = Inr ms \<and>
         \<lparr>move_r = r, move_c = c, move_res = res, move_pass = False\<rparr> \<in> set ms))"
proof (intro conjI impI)
  have "boardKey (res_board (move_res m)) \<noteq> k" if "m \<in> set (placements b col (Some k))" for m
  proof -
    from that obtain r c res where pc: "placeAndCapture b r c col = Inr (Some res)"
      and ko: "\<not> (Some k \<noteq> Some [] \<and> Some (boardKey (res_board res)) = Some k)"
      and m: "m = \<lparr>move_r = r, move_c = c, move_res = res, move_pass = False\<rparr>"
      unfolding placements_iff cellMoves_iff by auto
    from placed_key_nonempty [OF pc] ko m show ?thesis by auto
  qed
  then show "\<exists>ms. legalMoves b col (Some k) = Inr ms \<and>
      (\<forall>m \<in> set ms. \<not> move_pass m \<longrightarrow> boardKey (res_board (move_res m)) \<noteq> k)"
    by (auto simp: legalMoves_eq passMove_def)
next
  assume ib: "inBounds (int (length b)) r c"
    and pc: "placeAndCapture b r c col = Inr (Some res)"
    and ko: "koKeyLast \<noteq> Some (boardKey (res_board res))"
  from pc have "cellAt b r c = Some EMPTY"
    by (auto simp: placeAndCapture_def Let_def split: if_splits)
  with pc ko have "\<lparr>move_r = r, move_c = c, move_res = res, move_pass = False\<rparr>
      \<in> set (cellMoves b col koKeyLast r c)"
    unfolding cellMoves_iff by auto
  with ib have "\<lparr>move_r = r, move_c = c, move_res = res, move_pass = False\<rparr>
      \<in> set (placements b col koKeyLast)"
    unfolding placements_iff by blast
  then show "\<exists>ms. legalMoves b col koKeyLast = Inr ms \<and>
         \<lparr>move_r = r, move_c = c, move_res = res, move_pass = False\<rparr> \<in> set ms"
    by (simp add: legalMoves_eq)
qed

text \<open>
  The ko position: retaking at \<open>(1, 2)\<close> is accepted by \<open>placeAndCapture\<close> and gives
  the board \<open>koBefore\<close>; with the key of \<open>koBefore\<close> as previous key the move is not in
  the list, with the key of \<open>koBoard\<close> it is.
\<close>

theorem legalMoves_simple_ko_witness:
  "inBounds (int (length koBoard)) 1 2 \<and>
   placeAndCapture koBoard 1 2 BLACK = Inr (Some (move_res koMove)) \<and>
   boardKey (res_board (move_res koMove)) = ''0120|1012|0120|0000'' \<and>
   (\<exists>ms. legalMoves koBoard BLACK (Some ''0120|1012|0120|0000'') = Inr ms \<and> koMove \<notin> set ms) \<and>
   (\<exists>ms. legalMoves koBoard BLACK (Some ''0120|1102|0120|0000'') = Inr ms \<and> koMove \<in> set ms)"
proof -
  have ib: "inBounds (int (length koBoard)) 1 2"
    by code_simp
  have pc: "placeAndCapture koBoard 1 2 BLACK = Inr (Some (move_res koMove))"
    by code_simp
  have key: "boardKey (res_board (move_res koMove)) = ''0120|1012|0120|0000''"
    by code_simp
  have other: "Some ''0120|1102|0120|0000'' \<noteq> Some (boardKey (res_board (move_res koMove)))"
    by code_simp
  have mv: "\<lparr>move_r = 1, move_c = 2, move_res = move_res koMove, move_pass = False\<rparr> = koMove"
    by (simp add: koMove_def)
  note ko = legalMoves_simple_ko [of koBoard BLACK "''0120|1012|0120|0000''" 1 2
      "move_res koMove" "Some ''0120|1102|0120|0000''"]
  from ko obtain ms where ms: "legalMoves koBoard BLACK (Some ''0120|1012|0120|0000'') = Inr ms"
    and ball: "\<forall>m \<in> set ms. \<not> move_pass m \<longrightarrow>
      boardKey (res_board (move_res m)) \<noteq> ''0120|1012|0120|0000''"
    by blast
  have "\<not> move_pass koMove" by (simp add: koMove_def)
  with ball key have out: "koMove \<notin> set ms" by blast
  from ko ib pc other mv
  have "\<exists>ms. legalMoves koBoard BLACK (Some ''0120|1102|0120|0000'') = Inr ms \<and> koMove \<in> set ms"
    by simp
  with ib pc key ms out show ?thesis by blast
qed

section \<open>Regions of empty cells\<close>

text \<open>
  The words of the specification.  A region is what is reached from a cell by steps to
  empty neighbours: for an empty cell, the maximal 4-connected set of empty cells around
  it.  Its border is the set of the values of the non-empty neighbours of its cells.
  \<open>areaOf\<close> puts every cell into one of three classes: a stone into the area of its
  colour, an empty cell into the area of the one colour that borders its region, and into
  neither when no colour or both border it.  \<open>square\<close> says that every row is as long as
  the board has rows.
\<close>

definition emptyStep :: "board \<Rightarrow> (pos \<times> pos) set" where
  "emptyStep b = {(p, q). q \<in> nbrs b p \<and> cellOf b q = Some EMPTY}"

definition region :: "board \<Rightarrow> pos \<Rightarrow> pos set" where
  "region b p = (emptyStep b)\<^sup>* `` {p}"

definition borderOf :: "board \<Rightarrow> pos set \<Rightarrow> cell option set" where
  "borderOf b S = {v. \<exists>p \<in> S. \<exists>q \<in> nbrs b p. cellOf b q = v \<and> v \<noteq> Some EMPTY}"

datatype area = BlackArea | WhiteArea | NoArea

definition areaOf :: "board \<Rightarrow> pos \<Rightarrow> area" where
  "areaOf b p =
     (if cellOf b p = Some BLACK then BlackArea
      else if cellOf b p = Some WHITE then WhiteArea
      else if cellOf b p = Some EMPTY \<and> borderOf b (region b p) = {Some BLACK} then BlackArea
      else if cellOf b p = Some EMPTY \<and> borderOf b (region b p) = {Some WHITE} then WhiteArea
      else NoArea)"

definition square :: "board \<Rightarrow> bool" where
  "square b \<longleftrightarrow> list_all (\<lambda>row. length row = length b) b"

lemma regionScan_seen:
  "fst (regionScan b ns (seen, q, border)) = seen \<union> {y \<in> set ns. cellOf b y = Some EMPTY}"
  by (induction b ns "(seen, q, border)" arbitrary: seen q border rule: regionScan.induct)
    (auto simp: Let_def cellOf_def)

lemma regionScan_queue:
  "set (fst (snd (regionScan b ns (seen, q, border)))) =
     set q \<union> ({y \<in> set ns. cellOf b y = Some EMPTY} - seen)"
  by (induction b ns "(seen, q, border)" arbitrary: seen q border rule: regionScan.induct)
    (auto simp: Let_def cellOf_def)

lemma regionScan_distinct:
  "distinct q \<Longrightarrow> set q \<subseteq> seen \<Longrightarrow> distinct (fst (snd (regionScan b ns (seen, q, border))))"
proof (induction b ns "(seen, q, border)" arbitrary: seen q border rule: regionScan.induct)
  case (1 b)
  then show ?case by simp
next
  case (2 b ar ac ns seen q border)
  show ?case
  proof (cases "cellAt b ar ac = Some EMPTY \<and> (ar, ac) \<notin> seen")
    case True
    have "distinct ((ar, ac) # q)" "set ((ar, ac) # q) \<subseteq> insert (ar, ac) seen"
      using True 2(2,3) by auto
    from 2(1) [OF refl _ this] True show ?thesis by (simp add: Let_def)
  next
    case False
    then show ?thesis using 2 by (auto simp: Let_def)
  qed
qed

lemma regionScan_border:
  "set (snd (snd (regionScan b ns (seen, q, border)))) =
     set border \<union> {v. \<exists>y \<in> set ns. cellOf b y = v \<and> v \<noteq> Some EMPTY}"
  by (induction b ns "(seen, q, border)" arbitrary: seen q border rule: regionScan.induct)
    (auto simp: Let_def cellOf_def)

lemma regionScan_border_distinct:
  "distinct border \<Longrightarrow> distinct (snd (snd (regionScan b ns (seen, q, border))))"
  by (induction b ns "(seen, q, border)" arbitrary: seen q border rule: regionScan.induct)
    (auto simp: Let_def)


text \<open>
  The invariant of the loop over one region, started at \<open>p\<close> with \<open>S0\<close> already seen:
  the cells popped so far are those marked since the start and no longer on the stack.
\<close>

definition visited :: "pos set \<Rightarrow> pos list \<Rightarrow> pos set \<Rightarrow> pos set" where
  "visited S0 q seen = (seen - S0) - set q"

definition regionInv ::
  "board \<Rightarrow> pos set \<Rightarrow> pos \<Rightarrow> pos list \<Rightarrow> pos set \<Rightarrow> nat \<Rightarrow> cell option list \<Rightarrow> bool"
where
  "regionInv b S0 p q seen count border \<longleftrightarrow>
     distinct q \<and> set q \<subseteq> seen - S0 \<and> S0 \<subseteq> seen \<and> p \<in> seen \<and>
     seen - S0 \<subseteq> region b p \<and> finite (seen - S0) \<and>
     count = card (visited S0 q seen) \<and>
     set border = borderOf b (visited S0 q seen) \<and> distinct border \<and>
     (\<forall>x \<in> visited S0 q seen. \<forall>y \<in> nbrs b x. cellOf b y = Some EMPTY \<longrightarrow> y \<in> seen)"

lemma borderOf_insert:
  "borderOf b (insert x V) = borderOf b V \<union> {v. \<exists>y \<in> nbrs b x. cellOf b y = v \<and> v \<noteq> Some EMPTY}"
  by (auto simp: borderOf_def)

lemma region_step: "x \<in> region b p \<Longrightarrow> y \<in> nbrs b x \<Longrightarrow> cellOf b y = Some EMPTY \<Longrightarrow> y \<in> region b p"
  unfolding region_def emptyStep_def by (auto intro: rtrancl_into_rtrancl)

lemma regionInv_step:
  assumes inv: "regionInv b S0 p (x # q) seen count border"
    and sc: "regionScan b (neighbors (int (length b)) (fst x) (snd x)) (seen, q, border) = (seen', q', border')"
  shows "regionInv b S0 p q' seen' (count + 1) border'"
proof -
  define E where "E = {y \<in> nbrs b x. cellOf b y = Some EMPTY}"
  from inv have dq: "distinct (x # q)" and qs: "set (x # q) \<subseteq> seen - S0" and S0: "S0 \<subseteq> seen"
    and p: "p \<in> seen" and reg: "seen - S0 \<subseteq> region b p" and fin: "finite (seen - S0)"
    and cnt: "count = card (visited S0 (x # q) seen)"
    and bor: "set border = borderOf b (visited S0 (x # q) seen)" and db: "distinct border"
    and cl: "\<forall>x \<in> visited S0 (x # q) seen. \<forall>y \<in> nbrs b x. cellOf b y = Some EMPTY \<longrightarrow> y \<in> seen"
    by (auto simp: regionInv_def)
  have seen': "seen' = seen \<union> E"
    using regionScan_seen [of b "neighbors (int (length b)) (fst x) (snd x)" seen q border] sc
    by (simp add: E_def nbrs_def)
  have q': "set q' = set q \<union> (E - seen)"
    using regionScan_queue [of b "neighbors (int (length b)) (fst x) (snd x)" seen q border] sc
    by (simp add: E_def nbrs_def)
  have dq': "distinct q'"
    using regionScan_distinct [of q seen b "neighbors (int (length b)) (fst x) (snd x)" border] sc dq qs
    by auto
  have border': "set border' = set border \<union> {v. \<exists>y \<in> nbrs b x. cellOf b y = v \<and> v \<noteq> Some EMPTY}"
    using regionScan_border [of b "neighbors (int (length b)) (fst x) (snd x)" seen q border] sc
    by (simp add: nbrs_def)
  have db': "distinct border'"
    using regionScan_border_distinct [OF db, of b "neighbors (int (length b)) (fst x) (snd x)" seen q] sc
    by simp
  have xin: "x \<in> seen - S0" "x \<notin> set q" using dq qs by auto
  have vis: "visited S0 q' seen' = insert x (visited S0 (x # q) seen)"
    unfolding visited_def seen' q' using xin S0 by auto
  have xnot: "x \<notin> visited S0 (x # q) seen" by (simp add: visited_def)
  have finv: "finite (visited S0 (x # q) seen)" using fin by (simp add: visited_def)
  have xr: "x \<in> region b p" using xin reg by auto
  have Er: "E \<subseteq> region b p" by (auto simp: E_def intro: region_step [OF xr])
  have finE: "finite E" by (simp add: E_def nbrs_def)
  show ?thesis
    unfolding regionInv_def
  proof (intro conjI)
    show "distinct q'" by (rule dq')
    show "set q' \<subseteq> seen' - S0" using q' seen' qs S0 by auto
    show "S0 \<subseteq> seen'" using seen' S0 by auto
    show "p \<in> seen'" using seen' p by simp
    show "seen' - S0 \<subseteq> region b p" using seen' reg Er by auto
    show "finite (seen' - S0)" using seen' fin finE by (simp add: Un_Diff)
    show "count + 1 = card (visited S0 q' seen')"
      unfolding vis using cnt xnot finv by simp
    show "set border' = borderOf b (visited S0 q' seen')"
      unfolding vis borderOf_insert border' bor by simp
    show "distinct border'" by (rule db')
    show "\<forall>x \<in> visited S0 q' seen'. \<forall>y \<in> nbrs b x. cellOf b y = Some EMPTY \<longrightarrow> y \<in> seen'"
    proof (intro ballI impI)
      fix z y assume z: "z \<in> visited S0 q' seen'" and y: "y \<in> nbrs b z" "cellOf b y = Some EMPTY"
      from z vis have "z = x \<or> z \<in> visited S0 (x # q) seen" by simp
      then show "y \<in> seen'"
      proof
        assume "z = x"
        with y have "y \<in> E" by (simp add: E_def)
        then show ?thesis by (simp add: seen')
      next
        assume "z \<in> visited S0 (x # q) seen"
        with cl y have "y \<in> seen" by blast
        then show ?thesis by (simp add: seen')
      qed
    qed
  qed
qed

lemma regionLoop_inv:
  "regionInv b S0 p q seen count border \<Longrightarrow>
   regionLoop b q seen count border = (seen', count', border') \<Longrightarrow>
   regionInv b S0 p [] seen' count' border'"
proof (induction b q seen count border rule: regionLoop.induct)
  case (1 b seen count border)
  then show ?case by simp
next
  case (2 b rr cc q seen count border)
  obtain seen1 q1 border1 where sc:
    "regionScan b (neighbors (int (length b)) rr cc) (seen, q, border) = (seen1, q1, border1)"
    by (cases "regionScan b (neighbors (int (length b)) rr cc) (seen, q, border)") auto
  have inv1: "regionInv b S0 p q1 seen1 (count + 1) border1"
    using regionInv_step [OF 2(2), of seen1 q1 border1] sc by simp
  have "regionLoop b q1 seen1 (count + 1) border1 = (seen', count', border')"
    using 2(3) sc by simp
  from 2(1) [OF sc [symmetric] refl inv1 this] show ?case .
qed


lemma region_refl: "p \<in> region b p"
  by (simp add: region_def)

lemma region_trans: "q \<in> region b p \<Longrightarrow> region b q \<subseteq> region b p"
  unfolding region_def by (auto intro: rtrancl_trans)

lemma region_cells: "p \<in> cells b \<Longrightarrow> region b p \<subseteq> cells b"
proof
  fix q assume p: "p \<in> cells b" and "q \<in> region b p"
  then have "(p, q) \<in> (emptyStep b)\<^sup>*" by (simp add: region_def)
  then show "q \<in> cells b"
    by (induction rule: rtrancl_induct) (use p in \<open>auto simp: emptyStep_def intro: nbrs_cells\<close>)
qed

lemma region_empty: "cellOf b p = Some EMPTY \<Longrightarrow> q \<in> region b p \<Longrightarrow> cellOf b q = Some EMPTY"
proof -
  assume p: "cellOf b p = Some EMPTY" and "q \<in> region b p"
  then have "(p, q) \<in> (emptyStep b)\<^sup>*" by (simp add: region_def)
  then show ?thesis
    by (induction rule: rtrancl_induct) (use p in \<open>auto simp: emptyStep_def\<close>)
qed

lemma finite_region: "finite (region b p)"
proof -
  have "region b p \<subseteq> insert p (cells b)"
  proof
    fix q assume "q \<in> region b p"
    then have "(p, q) \<in> (emptyStep b)\<^sup>*" by (simp add: region_def)
    then show "q \<in> insert p (cells b)"
      by (induction rule: rtrancl_induct) (auto simp: emptyStep_def intro: nbrs_cells)
  qed
  then show ?thesis by (rule finite_subset) simp
qed

lemma region_sym:
  assumes "q \<in> region b p" "p \<in> cells b" "cellOf b p = Some EMPTY"
  shows "p \<in> region b q"
proof -
  from assms(1) have "(p, q) \<in> (emptyStep b)\<^sup>*" by (simp add: region_def)
  then have "(q, p) \<in> (emptyStep b)\<^sup>* \<and> q \<in> cells b \<and> cellOf b q = Some EMPTY"
  proof (induction rule: rtrancl_induct)
    case base
    show ?case using assms(2,3) by simp
  next
    case (step y z)
    from step(2) have z: "z \<in> nbrs b y" "cellOf b z = Some EMPTY" by (auto simp: emptyStep_def)
    with step(3) have "(z, y) \<in> emptyStep b" by (auto simp: emptyStep_def intro: nbrs_sym)
    with step(3) have "(z, p) \<in> (emptyStep b)\<^sup>*" by (auto intro: converse_rtrancl_into_rtrancl)
    with z show ?case by (auto intro: nbrs_cells)
  qed
  then show ?thesis by (simp add: region_def)
qed

lemma region_eq:
  assumes "q \<in> region b p" "p \<in> cells b" "cellOf b p = Some EMPTY"
  shows "region b q = region b p"
  using region_trans [OF assms(1)] region_trans [OF region_sym [OF assms]] by blast

lemma regionLoop_region:
  assumes p: "p \<notin> S0" and disj: "region b p \<inter> S0 = {}"
    and run: "regionLoop b [p] (insert p S0) 0 [] = (seen', count', border')"
  shows "seen' = S0 \<union> region b p \<and> count' = card (region b p) \<and>
     set border' = borderOf b (region b p) \<and> distinct border'"
proof -
  have start: "insert p S0 - S0 = {p}" using p by auto
  have "regionInv b S0 p [p] (insert p S0) 0 []"
    unfolding regionInv_def visited_def start
    by (auto simp: borderOf_def region_refl)
  from regionLoop_inv [OF this run] have inv: "regionInv b S0 p [] seen' count' border'" .
  define V where "V = seen' - S0"
  from inv have vis: "visited S0 [] seen' = V" by (simp add: visited_def V_def)
  from inv have S0: "S0 \<subseteq> seen'" and pin: "p \<in> seen'" and sub: "V \<subseteq> region b p"
    and cnt: "count' = card V" and bor: "set border' = borderOf b V" and db: "distinct border'"
    and cl: "\<forall>x \<in> V. \<forall>y \<in> nbrs b x. cellOf b y = Some EMPTY \<longrightarrow> y \<in> seen'"
    unfolding regionInv_def vis by (auto simp: V_def)
  have "q \<in> V" if "(p, q) \<in> (emptyStep b)\<^sup>*" for q
    using that
  proof (induction rule: rtrancl_induct)
    case base
    show ?case using pin p by (simp add: V_def)
  next
    case (step y z)
    from step(2) have z: "z \<in> nbrs b y" "cellOf b z = Some EMPTY" by (auto simp: emptyStep_def)
    with cl step(3) have "z \<in> seen'" by blast
    moreover have "z \<in> region b p" using step(1,2) by (auto simp: region_def intro: rtrancl_into_rtrancl)
    with disj have "z \<notin> S0" by auto
    ultimately show ?case by (simp add: V_def)
  qed
  then have "region b p \<subseteq> V" by (auto simp: region_def)
  with sub have V: "V = region b p" by auto
  have "seen' = S0 \<union> V" using S0 by (auto simp: V_def)
  with V cnt bor db show ?thesis by simp
qed


text \<open>The invariant of the loop over the cells, \<open>past\<close> being the cells visited.\<close>

definition ownedBy :: "board \<Rightarrow> cell \<Rightarrow> pos \<Rightarrow> bool" where
  "ownedBy b col q \<longleftrightarrow> borderOf b (region b q) = {Some col}"

definition scoreInv :: "board \<Rightarrow> nat \<Rightarrow> nat \<Rightarrow> pos set \<Rightarrow> pos set \<times> nat \<times> nat \<Rightarrow> bool" where
  "scoreInv b bl0 wh0 past st \<longleftrightarrow>
     (case st of (seen, bl, wh) \<Rightarrow>
        seen \<subseteq> cells b \<and>
        (\<forall>q \<in> seen. cellOf b q = Some EMPTY \<and> region b q \<subseteq> seen) \<and>
        (\<forall>p \<in> past. cellOf b p = Some EMPTY \<longrightarrow> p \<in> seen) \<and>
        bl = bl0 + card {q \<in> seen. ownedBy b BLACK q} \<and>
        wh = wh0 + card {q \<in> seen. ownedBy b WHITE q})"

lemma square_cellOf: "square b \<Longrightarrow> q \<in> cells b \<Longrightarrow> cellOf b q \<noteq> None"
  by (cases q) (auto simp: square_def cells_def cellOf_def cellAt_def list_all_length Let_def)

lemma borderOf_square: "square b \<Longrightarrow> borderOf b S \<subseteq> {Some BLACK, Some WHITE}"
proof
  fix v assume sq: "square b" and "v \<in> borderOf b S"
  then obtain q where q: "q \<in> cells b" "cellOf b q = v" "v \<noteq> Some EMPTY"
    by (auto simp: borderOf_def intro: nbrs_cells)
  from square_cellOf [OF sq q(1)] q(2) have "v \<noteq> None" by simp
  with q(3) obtain c where "v = Some c" "c \<noteq> EMPTY" by (cases v) auto
  then show "v \<in> {Some BLACK, Some WHITE}" by (cases c) auto
qed

lemma owner_cases:
  assumes "distinct border" "set border \<subseteq> {Some BLACK, Some WHITE}"
  shows "(length border = 1 \<and> Some BLACK \<in> set border) \<longleftrightarrow> set border = {Some BLACK}"
    and "(length border = 1 \<and> Some BLACK \<notin> set border) \<longleftrightarrow> set border = {Some WHITE}"
proof -
  have len: "length border = card (set border)" using assms(1) by (simp add: distinct_card)
  show "(length border = 1 \<and> Some BLACK \<in> set border) \<longleftrightarrow> set border = {Some BLACK}"
    unfolding len by (auto simp: card_1_singleton_iff)
  show "(length border = 1 \<and> Some BLACK \<notin> set border) \<longleftrightarrow> set border = {Some WHITE}"
    unfolding len using assms(2) by (auto simp: card_1_singleton_iff)
qed

lemma regionStep_inv:
  assumes inv: "scoreInv b bl0 wh0 past st" and p: "p \<in> cells b" and sq: "square b"
  shows "scoreInv b bl0 wh0 (insert p past) (regionStep b st p)"
proof -
  obtain seen bl wh where st: "st = (seen, bl, wh)" by (cases st) auto
  obtain r c where rc: "p = (r, c)" by (cases p) auto
  from inv st have sub: "seen \<subseteq> cells b"
    and cl: "\<And>q. q \<in> seen \<Longrightarrow> cellOf b q = Some EMPTY \<and> region b q \<subseteq> seen"
    and dn: "\<And>x. x \<in> past \<Longrightarrow> cellOf b x = Some EMPTY \<Longrightarrow> x \<in> seen"
    and bl: "bl = bl0 + card {q \<in> seen. ownedBy b BLACK q}"
    and wh: "wh = wh0 + card {q \<in> seen. ownedBy b WHITE q}"
    by (auto simp: scoreInv_def)
  show ?thesis
  proof (cases "cellAt b r c \<noteq> Some EMPTY \<or> (r, c) \<in> seen")
    case True
    then have "regionStep b st p = st" by (simp add: regionStep_def st rc)
    moreover have "cellOf b p = Some EMPTY \<longrightarrow> p \<in> seen" using True by (auto simp: rc cellOf_def)
    ultimately show ?thesis using inv st by (auto simp: scoreInv_def)
  next
    case False
    then have pe: "cellOf b p = Some EMPTY" and pn: "p \<notin> seen" by (auto simp: rc cellOf_def)
    have disj: "region b p \<inter> seen = {}"
    proof (rule ccontr)
      assume "region b p \<inter> seen \<noteq> {}"
      then obtain q where q: "q \<in> region b p" "q \<in> seen" by auto
      from region_sym [OF q(1) p pe] cl [OF q(2)] pn show False by auto
    qed
    obtain seen' count border where run:
      "regionLoop b [(r, c)] (insert (r, c) seen) 0 [] = (seen', count, border)"
      by (cases "regionLoop b [(r, c)] (insert (r, c) seen) 0 []") auto
    from regionLoop_region [OF pn disj, of seen' count border] run
    have seen': "seen' = seen \<union> region b p" and count: "count = card (region b p)"
      and border: "set border = borderOf b (region b p)" and db: "distinct border"
      by (auto simp: rc)
    have bsub: "set border \<subseteq> {Some BLACK, Some WHITE}"
      unfolding border by (rule borderOf_square [OF sq])
    note own = owner_cases [OF db bsub]
    define R where "R = region b p"
    have finR: "finite R" by (simp add: R_def finite_region)
    have fins: "finite seen" using sub by (rule finite_subset) simp
    have same: "ownedBy b col q = ownedBy b col p" if "q \<in> R" for q col
      using region_eq [OF _ p pe, of q] that by (simp add: ownedBy_def R_def)
    have split: "card {q \<in> seen \<union> R. ownedBy b col q} =
        card {q \<in> seen. ownedBy b col q} + (if ownedBy b col p then card R else 0)" for col
    proof -
      have "{q \<in> seen \<union> R. ownedBy b col q} =
          {q \<in> seen. ownedBy b col q} \<union> (if ownedBy b col p then R else {})"
        using same by auto
      moreover have "{q \<in> seen. ownedBy b col q} \<inter> (if ownedBy b col p then R else {}) = {}"
        using disj by (auto simp: R_def)
      ultimately show ?thesis
        using fins finR by (simp add: card_Un_disjoint)
    qed
    have ob: "ownedBy b BLACK p \<longleftrightarrow> length border = 1 \<and> Some BLACK \<in> set border"
      using own(1) by (simp add: ownedBy_def border)
    have ow: "ownedBy b WHITE p \<longleftrightarrow> length border = 1 \<and> Some BLACK \<notin> set border"
      using own(2) by (simp add: ownedBy_def border)
    have step: "regionStep b st p =
        (seen', if ownedBy b BLACK p then bl + count else bl,
         if ownedBy b WHITE p then wh + count else wh)"
      using False run ob ow by (auto simp: regionStep_def st rc Let_def)
    have "seen' \<subseteq> cells b" using seen' sub region_cells [OF p] by auto
    moreover have "cellOf b q = Some EMPTY \<and> region b q \<subseteq> seen'" if "q \<in> seen'" for q
    proof (cases "q \<in> seen")
      case True
      with cl [OF True] show ?thesis by (auto simp: seen')
    next
      case False
      with that have qr: "q \<in> region b p" by (simp add: seen')
      from region_empty [OF pe qr] region_trans [OF qr] show ?thesis by (auto simp: seen')
    qed
    moreover have "x \<in> seen'" if "x \<in> insert p past" "cellOf b x = Some EMPTY" for x
    proof (cases "x = p")
      case True
      then show ?thesis using region_refl [of p b] by (simp add: seen')
    next
      case False
      with that have "x \<in> past" by simp
      from dn [OF this that(2)] show ?thesis by (simp add: seen')
    qed
    ultimately show ?thesis
      unfolding step scoreInv_def
      using bl wh split [of BLACK] split [of WHITE] count
      by (simp add: seen' R_def)
  qed
qed


lemma foldl_regionStep_inv:
  "scoreInv b bl0 wh0 past st \<Longrightarrow> set ps \<subseteq> cells b \<Longrightarrow> square b \<Longrightarrow>
   scoreInv b bl0 wh0 (past \<union> set ps) (foldl (regionStep b) st ps)"
proof (induction ps arbitrary: past st)
  case Nil
  then show ?case by simp
next
  case (Cons p ps)
  from Cons.prems have "scoreInv b bl0 wh0 (insert p past) (regionStep b st p)"
    by (intro regionStep_inv) auto
  from Cons.IH [OF this] Cons.prems show ?case by simp
qed

lemma set_allCells: "set (allCells b) = cells b"
  unfolding allCells_def cells_def by (auto simp: in_upto_pred)

lemma distinct_grid:
  "distinct rs \<Longrightarrow> distinct cs \<Longrightarrow> distinct [(r, c). r \<leftarrow> rs, c \<leftarrow> cs]"
proof (induction rs)
  case Nil
  then show ?case by simp
next
  case (Cons r rs)
  have row: "concat (map (\<lambda>c. [(r, c)]) cs) = map (Pair r) cs"
    by (induction cs) auto
  have "distinct (map (Pair r) cs)" using Cons.prems(2) by (simp add: distinct_map inj_on_def)
  moreover have "set (map (Pair r) cs) \<inter> set [(r', c). r' \<leftarrow> rs, c \<leftarrow> cs] = {}"
    using Cons.prems(1) by auto
  ultimately show ?case using Cons by (simp add: row)
qed

lemma distinct_allCells: "distinct (allCells b)"
  unfolding allCells_def by (rule distinct_grid) simp_all

lemma foldl_countStone:
  "foldl (countStone b) (x, y) ps =
     (x + length (filter (\<lambda>p. cellOf b p = Some BLACK) ps),
      y + length (filter (\<lambda>p. cellOf b p = Some WHITE) ps))"
  by (induction ps arbitrary: x y) (auto simp: countStone_def cellOf_def)

lemma count_allCells: "length (filter P (allCells b)) = card {p \<in> cells b. P p}"
proof -
  have "distinct (filter P (allCells b))" using distinct_allCells [of b] by simp
  then have "card (set (filter P (allCells b))) = length (filter P (allCells b))"
    by (rule distinct_card)
  moreover have "set (filter P (allCells b)) = {p \<in> cells b. P p}"
    by (auto simp: set_allCells)
  ultimately show ?thesis by simp
qed

lemma areaOf_iff:
  "areaOf b p = BlackArea \<longleftrightarrow>
     cellOf b p = Some BLACK \<or> (cellOf b p = Some EMPTY \<and> ownedBy b BLACK p)"
  "areaOf b p = WhiteArea \<longleftrightarrow>
     cellOf b p = Some WHITE \<or> (cellOf b p = Some EMPTY \<and> ownedBy b WHITE p)"
proof -
  have ne: "{Some BLACK} \<noteq> {Some WHITE}" by simp
  show "areaOf b p = BlackArea \<longleftrightarrow>
     cellOf b p = Some BLACK \<or> (cellOf b p = Some EMPTY \<and> ownedBy b BLACK p)"
    unfolding areaOf_def ownedBy_def using ne by (cases "cellOf b p = Some EMPTY") simp_all
  show "areaOf b p = WhiteArea \<longleftrightarrow>
     cellOf b p = Some WHITE \<or> (cellOf b p = Some EMPTY \<and> ownedBy b WHITE p)"
    unfolding areaOf_def ownedBy_def using ne by (cases "cellOf b p = Some EMPTY") auto
qed

section \<open>Claims about area scoring\<close>

text \<open>
  C5.  For every board (every row as long as the board has rows), the black score is the
  number of cells in the black area and the white score the number of cells in the white
  area, where \<open>areaOf\<close> gives each cell exactly one of black, white or neither: a stone
  counts for its colour, an empty cell for the one colour bordering its region, and for
  neither when its region is bordered by no colour or by both.  The three classes together
  are all the cells.
\<close>

theorem chineseScore_areas:
  assumes sq: "square b"
  shows "score_black (chineseScore b) = card {p \<in> cells b. areaOf b p = BlackArea} \<and>
     score_white (chineseScore b) = card {p \<in> cells b. areaOf b p = WhiteArea} \<and>
     score_black (chineseScore b) + score_white (chineseScore b) +
       card {p \<in> cells b. areaOf b p = NoArea} = length b * length b"
proof -
  define sb where "sb = card {p \<in> cells b. cellOf b p = Some BLACK}"
  define sw where "sw = card {p \<in> cells b. cellOf b p = Some WHITE}"
  have stones: "foldl (countStone b) (0, 0) (allCells b) = (sb, sw)"
    by (simp add: foldl_countStone count_allCells sb_def sw_def)
  obtain seen bl wh where run: "foldl (regionStep b) ({}, sb, sw) (allCells b) = (seen, bl, wh)"
    by (cases "foldl (regionStep b) ({}, sb, sw) (allCells b)") auto
  have "scoreInv b sb sw {} ({}, sb, sw)" by (simp add: scoreInv_def)
  from foldl_regionStep_inv [OF this _ sq, of "allCells b"] run
  have inv: "scoreInv b sb sw (cells b) (seen, bl, wh)" by (simp add: set_allCells)
  then have seen: "seen = {p \<in> cells b. cellOf b p = Some EMPTY}"
    and bl: "bl = sb + card {q \<in> seen. ownedBy b BLACK q}"
    and wh: "wh = sw + card {q \<in> seen. ownedBy b WHITE q}"
    by (auto simp: scoreInv_def)
  have res: "chineseScore b = \<lparr>score_black = bl, score_white = wh\<rparr>"
    by (simp add: chineseScore_def stones run)
  have fin: "finite {p \<in> cells b. P p}" for P by simp
  have B: "{p \<in> cells b. areaOf b p = BlackArea} =
      {p \<in> cells b. cellOf b p = Some BLACK} \<union> {q \<in> seen. ownedBy b BLACK q}"
    unfolding seen areaOf_iff by blast
  have W: "{p \<in> cells b. areaOf b p = WhiteArea} =
      {p \<in> cells b. cellOf b p = Some WHITE} \<union> {q \<in> seen. ownedBy b WHITE q}"
    unfolding seen areaOf_iff by blast
  have cB: "card {p \<in> cells b. areaOf b p = BlackArea} = bl"
    unfolding B bl sb_def seen by (subst card_Un_disjoint) auto
  have cW: "card {p \<in> cells b. areaOf b p = WhiteArea} = wh"
    unfolding W wh sw_def seen by (subst card_Un_disjoint) auto
  let ?A = "{p \<in> cells b. areaOf b p = BlackArea}"
  let ?B = "{p \<in> cells b. areaOf b p = WhiteArea}"
  let ?C = "{p \<in> cells b. areaOf b p = NoArea}"
  have part: "?A \<union> (?B \<union> ?C) = cells b"
    using area.exhaust by auto
  have d1: "?A \<inter> (?B \<union> ?C) = {}" and d2: "?B \<inter> ?C = {}" by auto
  have "card (?A \<union> (?B \<union> ?C)) = card ?A + card (?B \<union> ?C)"
    by (rule card_Un_disjoint) (simp_all add: d1)
  also have "card (?B \<union> ?C) = card ?B + card ?C"
    by (rule card_Un_disjoint) (simp_all add: d2)
  finally have "card (cells b) = card ?A + (card ?B + card ?C)"
    unfolding part .
  moreover have "card (cells b) = length b * length b" by (simp add: cells_def)
  ultimately show ?thesis using cB cW res by simp
qed

text \<open>
  A 3 x 3 board with one corner bordered by Black alone, one by White alone and two by
  both.
\<close>

theorem chineseScore_areas_witness:
  "square [[EMPTY, BLACK, EMPTY], [BLACK, BLACK, WHITE], [EMPTY, WHITE, EMPTY]] \<and>
   chineseScore [[EMPTY, BLACK, EMPTY], [BLACK, BLACK, WHITE], [EMPTY, WHITE, EMPTY]] =
     \<lparr>score_black = 4, score_white = 3\<rparr> \<and>
   card {p \<in> cells [[EMPTY, BLACK, EMPTY], [BLACK, BLACK, WHITE], [EMPTY, WHITE, EMPTY]].
     areaOf [[EMPTY, BLACK, EMPTY], [BLACK, BLACK, WHITE], [EMPTY, WHITE, EMPTY]] p = BlackArea} = 4 \<and>
   card {p \<in> cells [[EMPTY, BLACK, EMPTY], [BLACK, BLACK, WHITE], [EMPTY, WHITE, EMPTY]].
     areaOf [[EMPTY, BLACK, EMPTY], [BLACK, BLACK, WHITE], [EMPTY, WHITE, EMPTY]] p = WhiteArea} = 3 \<and>
   card {p \<in> cells [[EMPTY, BLACK, EMPTY], [BLACK, BLACK, WHITE], [EMPTY, WHITE, EMPTY]].
     areaOf [[EMPTY, BLACK, EMPTY], [BLACK, BLACK, WHITE], [EMPTY, WHITE, EMPTY]] p = NoArea} = 2"
proof -
  let ?b = "[[EMPTY, BLACK, EMPTY], [BLACK, BLACK, WHITE], [EMPTY, WHITE, EMPTY]]"
  have sq: "square ?b" by code_simp
  have sc: "chineseScore ?b = \<lparr>score_black = 4, score_white = 3\<rparr>" by code_simp
  from chineseScore_areas [OF sq] sq sc show ?thesis by simp
qed

section \<open>Claims about move selection\<close>

lemma mapScored_fst:
  assumes "mapScored f xs i = Inr ys" and "\<And>x j y. f x j = Inr y \<Longrightarrow> fst y = x"
  shows "map fst ys = xs"
  using assms(1)
proof (induction xs arbitrary: i ys)
  case Nil
  then show ?case by simp
next
  case (Cons x xs)
  then show ?case
    by (auto split: sum.splits dest: assms(2))
qed

lemma set_sortDesc [simp]: "set (sortDesc xs) = set xs"
  by (simp add: sortDesc_def)

lemma length_sortDesc [simp]: "length (sortDesc xs) = length xs"
  by (simp add: sortDesc_def)

lemma level1Loop_member:
  "level1Loop e b col ms (w, best, bestS) = Inr (Some m) \<Longrightarrow> m = best \<or> m \<in> set ms"
proof (induction ms arbitrary: w best bestS)
  case Nil
  then show ?case by simp
next
  case (Cons x ms)
  from Cons.prems obtain s where s: "heuristic b x col = Inr s"
    and rec: "level1Loop e b col ms (w\<lparr>w_polls := w_polls w + 1\<rparr>,
        if s > bestS then x else best, if s > bestS then s else bestS) = Inr (Some m)"
    by (auto split: if_splits sum.splits)
  from Cons.IH [OF rec] show ?case by (auto split: if_splits)
qed

lemma candidateLoop_member:
  "candidateLoop e b col plies budget start playouts ms (w, best, bestScore) = Inr (Some m) \<Longrightarrow>
   m = best \<or> m \<in> set ms"
proof (induction ms arbitrary: w best bestScore)
  case Nil
  then show ?case by simp
next
  case (Cons x ms)
  from Cons.prems obtain w1 wins h where
    sim: "simLoop e (res_board (move_res x)) col plies budget start playouts
       (w\<lparr>w_polls := w_polls w + 1\<rparr>) 0 = Inr (Some (w1, wins))"
    and h: "heuristic b x col = Inr h" and nc: "\<not> env_cancel e (w_polls w)"
    by (auto split: if_splits sum.splits option.splits)
  define better where
    "better = (case bestScore of None \<Rightarrow> True | Some bs \<Rightarrow> real wins + h * 0.1 > bs)"
  define best' where "best' = (if better then x else best)"
  define bestScore' where "bestScore' = (if better then Some (real wins + h * 0.1) else bestScore)"
  have step: "candidateLoop e b col plies budget start playouts (x # ms) (w, best, bestScore) =
      (if overBudget budget start (env_now e (w_ticks w1)) then Inr (Some best')
       else candidateLoop e b col plies budget start playouts ms
              (w1\<lparr>w_ticks := w_ticks w1 + 1\<rparr>, best', bestScore'))"
    unfolding candidateLoop.simps best'_def bestScore'_def better_def Let_def
    using sim h nc by simp
  show ?case
  proof (cases "overBudget budget start (env_now e (w_ticks w1))")
    case True
    with step Cons.prems have "m = best'" by simp
    then show ?thesis by (auto simp: best'_def)
  next
    case False
    with step Cons.prems have "candidateLoop e b col plies budget start playouts ms
              (w1\<lparr>w_ticks := w_ticks w1 + 1\<rparr>, best', bestScore') = Inr (Some m)"
      by simp
    from Cons.IH [OF this] show ?thesis by (auto simp: best'_def)
  qed
qed

text \<open>
  C6.  For every board, colour, level and previous key, in every environment: a move
  returned by \<^verbatim>\<open>chooseAIMoveAsync\<close> (a return that is neither an error nor the \<^verbatim>\<open>null\<close>
  of a cancellation) is an element of \<open>legalMoves b col koKeyLast\<close>.
\<close>

theorem chooseAIMoveAsync_legal:
  assumes "chooseAIMoveAsync e w b col level koKeyLast blitz = Inr (Some m)"
  shows "\<exists>moves. legalMoves b col koKeyLast = Inr moves \<and> m \<in> set moves"
proof -
  obtain moves where lm: "legalMoves b col koKeyLast = Inr moves" and ne: "moves \<noteq> []"
    using legalMoves_eq [of b col koKeyLast] by simp
  define caps where "caps = filter (\<lambda>m. res_captured (move_res m) > 0) moves"
  define non where "non = filter (\<lambda>m. res_captured (move_res m) = 0) moves"
  define f where "f = (\<lambda>m (i::nat). case heuristic b m col of
      Inl err \<Rightarrow> (Inl err :: error + move \<times> real) | Inr h \<Rightarrow> Inr (m, h))"
  define limit :: int where "limit =
      (if int (length b) \<le> 9 then 18 else if int (length b) = 11 then 28
       else if level \<le> 2 then 22 else 45)"
  define cands where "cands = (\<lambda>keyed.
      let c0 = caps @ take (nat (max 0 (limit - int (length caps)))) (map fst (sortDesc keyed))
      in if length c0 = 0 then c0 @ moves else c0)"
  have body: "chooseAIMoveAsync e w b col level koKeyLast blitz =
      (if length moves = 1 \<and> move_pass (moves ! 0) then Inr (Some (moves ! 0))
       else case mapScored f non 0 of
              Inl err \<Rightarrow> Inl err
            | Inr keyed \<Rightarrow>
                if max 1 (min 5 level) = 1 then
                  level1Loop e b col (cands keyed)
                    (w\<lparr>w_ticks := w_ticks w + 1\<rparr>, cands keyed ! 0, - 1000000000)
                else
                  candidateLoop e b col
                    ((if int (length b) \<le> 9 then plies9
                      else if int (length b) = 11 then plies11 else plies19)
                       ! nat (max 1 (min 5 level) - 1))
                    (if blitz then Some 150
                     else if max 1 (min 5 level) \<le> 2
                          then Some (if int (length b) \<le> 9 then 300 else 500)
                          else None)
                    (env_now e (w_ticks w))
                    (playoutsTable ! nat (max 1 (min 5 level) - 1))
                    (cands keyed)
                    (w\<lparr>w_ticks := w_ticks w + 1\<rparr>, cands keyed ! 0, None))"
    unfolding chooseAIMoveAsync_def lm sum.case Let_def caps_def non_def f_def limit_def cands_def
    by (rule refl)
  show ?thesis
  proof (cases "length moves = 1 \<and> move_pass (moves ! 0)")
    case True
    with assms body have "m = moves ! 0" by simp
    with True lm show ?thesis by (metis nth_mem zero_less_one)
  next
    case False
    with assms body obtain keyed where keyed: "mapScored f non 0 = Inr keyed"
      by (cases "mapScored f non 0") auto
    have "map fst keyed = non"
      by (rule mapScored_fst [OF keyed]) (auto simp: f_def split: sum.splits)
    then have sk: "set (map fst (sortDesc keyed)) = set non"
      by (metis set_map set_sortDesc)
    have sub: "set (cands keyed) \<subseteq> set moves"
      unfolding cands_def Let_def
      using sk set_take_subset [of "nat (max 0 (limit - int (length caps)))" "map fst (sortDesc keyed)"]
      by (auto simp: caps_def non_def)
    have "cands keyed \<noteq> []" using ne by (auto simp: cands_def Let_def)
    then have first: "cands keyed ! 0 \<in> set (cands keyed)"
      by (simp add: hd_conv_nth [symmetric])
    from assms body False keyed have
      "(\<exists>w1 s. level1Loop e b col (cands keyed) (w1, cands keyed ! 0, s) = Inr (Some m)) \<or>
       (\<exists>plies budget start playouts w1 bs.
          candidateLoop e b col plies budget start playouts (cands keyed)
            (w1, cands keyed ! 0, bs) = Inr (Some m))"
      by (auto split: if_splits)
    then have "m \<in> set (cands keyed)"
      using level1Loop_member candidateLoop_member first by blast
    with sub lm show ?thesis by auto
  qed
qed

subsection \<open>Move selection raises nothing\<close>

text \<open>
  \<^verbatim>\<open>heuristic\<close> is called on moves of the list only: the cell of a placement is on the
  board and on the board of its result, so both calls of \<^verbatim>\<open>floodGroup\<close> return.  In the
  playout the index of the pick is \<^verbatim>\<open>Math.floor(Math.random() * K)\<close> with \<open>K\<close> at most
  the length of the list, which always holds the pass: a draw in \<open>[0, 1)\<close> gives an index
  inside the list.  The loops return \<^verbatim>\<open>null\<close> only after reading the cancellation flag set.
\<close>

lemma heuristic_Inr:
  assumes lm: "legalMoves b col ko = Inr moves" and m: "m \<in> set moves"
  shows "\<exists>h. heuristic b m col' = Inr h"
proof (cases "move_pass m")
  case True
  then show ?thesis by (simp add: heuristic_def)
next
  case False
  from lm m have "m \<in> set (placements b col ko) \<or> m = passMove b"
    unfolding legalMoves_eq by auto
  with False have "m \<in> set (placements b col ko)" by (auto simp: passMove_def)
  then obtain r c res where e: "cellAt b r c = Some EMPTY"
    and pc: "placeAndCapture b r c col = Inr (Some res)"
    and mv: "m = \<lparr>move_r = r, move_c = c, move_res = res, move_pass = False\<rparr>"
    unfolding placements_iff cellMoves_iff by blast
  from e have r: "0 \<le> r" "r < int (length b)"
    by (auto simp: cellAt_def split: if_splits)
  have len: "length (res_board res) = length b"
    using placeAndCapture_shape [OF pc] by (rule length_eq_of_shape)
  have step: "\<exists>s'. helpWeak b col' s n = Inr s'"
    if "n \<in> set (neighbors (int (length b)) r c)" for s n
  proof (cases "cellAt b (fst n) (snd n) = Some col'")
    case True
    then have "0 \<le> fst n" "fst n < int (length b)"
      by (auto simp: cellAt_def split: if_splits)
    from floodGroup_Inr [OF this] obtain g where "floodGroup b (fst n) (snd n) = Inr g" ..
    with True show ?thesis by (cases n) (auto simp: helpWeak_def)
  next
    case False
    then show ?thesis by (cases n) (auto simp: helpWeak_def)
  qed
  have "\<exists>s'. forEach (neighbors (int (length b)) r c) (helpWeak b col')
      (0 + real (res_captured res) * 5) = Inr s' \<and> True"
    by (rule forEach_inv [where I = "\<lambda>_. True"]) (simp_all add: step)
  then obtain score where sc: "forEach (neighbors (int (length b)) r c) (helpWeak b col')
      (0 + real (res_captured res) * 5) = Inr score"
    by blast
  from r len floodGroup_Inr [of r "res_board res" c]
  obtain self where self: "floodGroup (res_board res) r c = Inr self" by auto
  show ?thesis
    unfolding heuristic_def Let_def mv using sc self by simp
qed

lemma mapScored_Inr:
  assumes "\<And>x i. x \<in> set xs \<Longrightarrow> \<exists>y. f x i = Inr y"
  shows "\<exists>ys. mapScored f xs i = Inr ys \<and> length ys = length xs"
  using assms
proof (induction xs arbitrary: i)
  case Nil
  then show ?case by simp
next
  case (Cons x xs)
  from Cons.prems [of x i] obtain y where y: "f x i = Inr y" by auto
  from Cons.IH [of "Suc i"] Cons.prems obtain ys where
    "mapScored f xs (Suc i) = Inr ys" "length ys = length xs"
    by (metis list.set_intros(2))
  with y show ?case by simp
qed

lemma pick_index:
  fixes x :: real and n :: nat
  assumes "0 \<le> x" "x < 1" "0 < n"
  shows "0 \<le> \<lfloor>x * real_of_int (min 10 (int n))\<rfloor> \<and> \<lfloor>x * real_of_int (min 10 (int n))\<rfloor> < int n"
proof -
  define K where "K = min 10 (int n)"
  have K: "0 < K" "K \<le> int n" using assms(3) by (auto simp: K_def)
  have "0 \<le> x * real_of_int K" using assms(1) K by simp
  then have lo: "0 \<le> \<lfloor>x * real_of_int K\<rfloor>" by simp
  have "x * real_of_int K < real_of_int K" using assms(2) K by simp
  then have "\<lfloor>x * real_of_int K\<rfloor> < K" by (simp add: floor_less_iff)
  with lo K show ?thesis unfolding K_def by linarith
qed

lemma playPly_Inr:
  assumes unit: "\<forall>i. 0 \<le> rnd i \<and> rnd i < 1"
  shows "\<exists>st' stop. playPly rnd st = Inr (st', stop)"
proof -
  define moves where "moves = placements (po_board st) (po_turn st) (po_koKeyLast st)
      @ [passMove (po_board st)]"
  have lm: "legalMoves (po_board st) (po_turn st) (po_koKeyLast st) = Inr moves"
    by (simp add: legalMoves_eq moves_def)
  have ne: "0 < length moves" by (simp add: moves_def)
  define f where "f = (\<lambda>m i. case heuristic (po_board st) m (po_turn st) of
       Inl e \<Rightarrow> (Inl e :: error + move \<times> real) | Inr h \<Rightarrow> Inr (m, h + rnd i * 0.3))"
  have "\<exists>y. f x i = Inr y" if "x \<in> set moves" for x i
    using heuristic_Inr [OF lm that, of "po_turn st"] by (auto simp: f_def)
  from mapScored_Inr [of moves f "po_draws st", OF this]
  obtain scored0 where s0: "mapScored f moves (po_draws st) = Inr scored0"
    and l0: "length scored0 = length moves" by blast
  from unit have u: "0 \<le> rnd (po_draws st + length moves)" "rnd (po_draws st + length moves) < 1"
    by auto
  from pick_index [OF u ne]
  have idx: "0 \<le> \<lfloor>rnd (po_draws st + length moves) * real_of_int (min 10 (int (length moves)))\<rfloor>"
    "\<lfloor>rnd (po_draws st + length moves) * real_of_int (min 10 (int (length moves)))\<rfloor> < int (length moves)"
    by auto
  show ?thesis
    unfolding playPly_def lm sum.case f_def [symmetric] s0 Let_def length_sortDesc l0
    using idx by (auto simp: legalMoves_eq)
qed

lemma playoutLoop_Inr:
  assumes unit: "\<forall>i. 0 \<le> rnd i \<and> rnd i < 1"
  shows "\<exists>st'. playoutLoop rnd n st = Inr st'"
proof (induction n arbitrary: st)
  case 0
  then show ?case by simp
next
  case (Suc n)
  from playPly_Inr [OF unit, of st] obtain st' stop where "playPly rnd st = Inr (st', stop)"
    by blast
  with Suc [of st'] show ?case by auto
qed

lemma randomPlayoutWinner_Inr:
  assumes unit: "\<forall>i. 0 \<le> rnd i \<and> rnd i < 1"
  shows "\<exists>winner draws'. randomPlayoutWinner rnd draws b col plies = Inr (winner, draws')"
  using playoutLoop_Inr [OF unit, of "nat plies" "playoutStart b col draws"]
  by (auto simp: randomPlayoutWinner_def)

lemma simLoop_Inr:
  assumes unit: "\<forall>i. 0 \<le> env_random e i \<and> env_random e i < 1"
  shows "\<exists>r. simLoop e nb col plies budget start n w wins = Inr r \<and>
     (r = None \<longrightarrow> (\<exists>i. env_cancel e i))"
proof (induction n arbitrary: w wins)
  case 0
  then show ?case by simp
next
  case (Suc n)
  define w1 where "w1 = w\<lparr>w_polls := w_polls w + 1, w_ticks := w_ticks w + 1\<rparr>"
  from randomPlayoutWinner_Inr [OF unit, of "w_draws w1" nb "OTHER col" plies]
  obtain winner draws where
    rp: "randomPlayoutWinner (env_random e) (w_draws w1) nb (OTHER col) plies = Inr (winner, draws)"
    by blast
  have step: "simLoop e nb col plies budget start (Suc n) w wins =
      (if env_cancel e (w_polls w) then Inr None
       else if overBudget budget start (env_now e (w_ticks w)) then Inr (Some (w1, wins))
       else simLoop e nb col plies budget start n (w1\<lparr>w_draws := draws\<rparr>)
              (if winner = col then wins + 1 else wins))"
    unfolding simLoop.simps Let_def w1_def [symmetric] rp by simp
  show ?case unfolding step using Suc by auto
qed

lemma level1Loop_Inr:
  assumes "\<And>m. m \<in> set ms \<Longrightarrow> \<exists>h. heuristic b m col = Inr h"
  shows "\<exists>r. level1Loop e b col ms (w, best, bestS) = Inr r \<and>
     (r = None \<longrightarrow> (\<exists>i. env_cancel e i))"
  using assms
proof (induction ms arbitrary: w best bestS)
  case Nil
  then show ?case by simp
next
  case (Cons x ms)
  from Cons.prems [of x] obtain s where s: "heuristic b x col = Inr s" by auto
  have rec: "\<exists>r. level1Loop e b col ms (w', best', bestS') = Inr r \<and>
     (r = None \<longrightarrow> (\<exists>i. env_cancel e i))" for w' best' bestS'
    using Cons.IH Cons.prems by simp
  show ?case unfolding level1Loop.simps s sum.case using rec by auto
qed

lemma candidateLoop_Inr:
  assumes unit: "\<forall>i. 0 \<le> env_random e i \<and> env_random e i < 1"
    and "\<And>m. m \<in> set ms \<Longrightarrow> \<exists>h. heuristic b m col = Inr h"
  shows "\<exists>r. candidateLoop e b col plies budget start playouts ms (w, best, bestScore) = Inr r \<and>
     (r = None \<longrightarrow> (\<exists>i. env_cancel e i))"
  using assms(2)
proof (induction ms arbitrary: w best bestScore)
  case Nil
  then show ?case by simp
next
  case (Cons x ms)
  from Cons.prems [of x] obtain h where h: "heuristic b x col = Inr h" by auto
  have rec: "\<exists>r. candidateLoop e b col plies budget start playouts ms (w', best', bs') = Inr r \<and>
     (r = None \<longrightarrow> (\<exists>i. env_cancel e i))" for w' best' bs'
    using Cons.IH Cons.prems by simp
  from simLoop_Inr [OF unit, of "res_board (move_res x)" col plies budget start playouts
      "w\<lparr>w_polls := w_polls w + 1\<rparr>" 0]
  obtain sr where sim: "simLoop e (res_board (move_res x)) col plies budget start playouts
      (w\<lparr>w_polls := w_polls w + 1\<rparr>) 0 = Inr sr" and sc: "sr = None \<longrightarrow> (\<exists>i. env_cancel e i)"
    by blast
  show ?case
  proof (cases "env_cancel e (w_polls w)")
    case True
    then show ?thesis by auto
  next
    case False
    show ?thesis
    proof (cases sr)
      case None
      with sim sc False show ?thesis by simp
    next
      case (Some p)
      obtain w1 wins where p: "p = (w1, wins)" by (cases p)
      show ?thesis
        unfolding candidateLoop.simps sim Some p h Let_def using False rec by simp
    qed
  qed
qed

text \<open>
  C9, amended: no level is rejected.  For every level, inside 1..5 or not, the function
  does what it does for the level clamped into 1..5.  And it does not fail: when every
  draw of \<^verbatim>\<open>Math.random()\<close> lies in \<open>[0, 1)\<close>, it returns for every level, board, colour and
  previous key, either a move of \<open>legalMoves b col koKeyLast\<close> or the \<^verbatim>\<open>null\<close> of a
  cancellation, the latter only when the cancellation flag is set at some reading.
\<close>

theorem chooseAIMoveAsync_clamps:
  "chooseAIMoveAsync e w b col level koKeyLast blitz =
     chooseAIMoveAsync e w b col (max 1 (min 5 level)) koKeyLast blitz \<and>
   ((\<forall>i. 0 \<le> env_random e i \<and> env_random e i < 1) \<longrightarrow>
    (\<exists>r. chooseAIMoveAsync e w b col level koKeyLast blitz = Inr r \<and>
       (case r of
          None \<Rightarrow> \<exists>i. env_cancel e i
        | Some m \<Rightarrow> \<exists>moves. legalMoves b col koKeyLast = Inr moves \<and> m \<in> set moves)))"
proof (intro conjI impI)
  have "(level \<le> 2) = (max 1 (min 5 level) \<le> 2)" by auto
  moreover have "max 1 (min 5 (max 1 (min 5 level))) = max 1 (min 5 level)" by auto
  ultimately show "chooseAIMoveAsync e w b col level koKeyLast blitz =
      chooseAIMoveAsync e w b col (max 1 (min 5 level)) koKeyLast blitz"
    unfolding chooseAIMoveAsync_def by presburger
next
  assume unit: "\<forall>i. 0 \<le> env_random e i \<and> env_random e i < 1"
  let ?goal = "\<lambda>x. \<exists>r. x = Inr r \<and>
       (case r of
          None \<Rightarrow> \<exists>i. env_cancel e i
        | Some m \<Rightarrow> \<exists>moves. legalMoves b col koKeyLast = Inr moves \<and> m \<in> set moves)"
  obtain moves where lm: "legalMoves b col koKeyLast = Inr moves" and ne: "moves \<noteq> []"
    using legalMoves_eq [of b col koKeyLast] by simp
  define caps where "caps = filter (\<lambda>m. res_captured (move_res m) > 0) moves"
  define non where "non = filter (\<lambda>m. res_captured (move_res m) = 0) moves"
  define f where "f = (\<lambda>m (i::nat). case heuristic b m col of
      Inl err \<Rightarrow> (Inl err :: error + move \<times> real) | Inr h \<Rightarrow> Inr (m, h))"
  define limit :: int where "limit =
      (if int (length b) \<le> 9 then 18 else if int (length b) = 11 then 28
       else if level \<le> 2 then 22 else 45)"
  define cands where "cands = (\<lambda>keyed.
      let c0 = caps @ take (nat (max 0 (limit - int (length caps)))) (map fst (sortDesc keyed))
      in if length c0 = 0 then c0 @ moves else c0)"
  define plies where "plies =
      (if int (length b) \<le> 9 then plies9
       else if int (length b) = 11 then plies11 else plies19) ! nat (max 1 (min 5 level) - 1)"
  define budget where "budget =
      (if blitz then Some 150
       else if max 1 (min 5 level) \<le> 2 then Some (if int (length b) \<le> 9 then 300 else 500)
       else (None :: real option))"
  have body: "chooseAIMoveAsync e w b col level koKeyLast blitz =
      (if length moves = 1 \<and> move_pass (moves ! 0) then Inr (Some (moves ! 0))
       else case mapScored f non 0 of
              Inl err \<Rightarrow> Inl err
            | Inr keyed \<Rightarrow>
                if max 1 (min 5 level) = 1 then
                  level1Loop e b col (cands keyed)
                    (w\<lparr>w_ticks := w_ticks w + 1\<rparr>, cands keyed ! 0, - 1000000000)
                else
                  candidateLoop e b col plies budget (env_now e (w_ticks w))
                    (playoutsTable ! nat (max 1 (min 5 level) - 1))
                    (cands keyed)
                    (w\<lparr>w_ticks := w_ticks w + 1\<rparr>, cands keyed ! 0, None))"
    unfolding chooseAIMoveAsync_def lm sum.case Let_def caps_def non_def f_def limit_def cands_def
      plies_def budget_def
    by (rule refl)
  have heur: "\<exists>h. heuristic b m col = Inr h" if "m \<in> set moves" for m
    using heuristic_Inr [OF lm that] .
  show "?goal (chooseAIMoveAsync e w b col level koKeyLast blitz)"
  proof (cases "length moves = 1 \<and> move_pass (moves ! 0)")
    case True
    then have "moves ! 0 \<in> set moves" by (metis nth_mem zero_less_one)
    with True body lm show ?thesis by simp
  next
    case False
    have "\<exists>y. f x i = Inr y" if "x \<in> set non" for x i
      using heur [of x] that by (auto simp: f_def non_def)
    from mapScored_Inr [of non f 0, OF this]
    obtain keyed where keyed: "mapScored f non 0 = Inr keyed" by blast
    have "map fst keyed = non"
      by (rule mapScored_fst [OF keyed]) (auto simp: f_def split: sum.splits)
    then have sk: "set (map fst (sortDesc keyed)) = set non"
      by (metis set_map set_sortDesc)
    have sub: "set (cands keyed) \<subseteq> set moves"
      unfolding cands_def Let_def
      using sk set_take_subset [of "nat (max 0 (limit - int (length caps)))" "map fst (sortDesc keyed)"]
      by (auto simp: caps_def non_def)
    have "cands keyed \<noteq> []" using ne by (auto simp: cands_def Let_def)
    then have first: "cands keyed ! 0 \<in> set (cands keyed)"
      by (simp add: hd_conv_nth [symmetric])
    have ch: "\<exists>h. heuristic b m col = Inr h" if "m \<in> set (cands keyed)" for m
      using heur that sub by blast
    note run1 = body [unfolded if_not_P [OF False] keyed sum.case]
    show ?thesis
    proof (cases "max 1 (min 5 level) = 1")
      case True
      have run: "chooseAIMoveAsync e w b col level koKeyLast blitz =
          level1Loop e b col (cands keyed)
            (w\<lparr>w_ticks := w_ticks w + 1\<rparr>, cands keyed ! 0, - 1000000000)"
        using run1 [unfolded if_P [OF True]] .
      from level1Loop_Inr [of "cands keyed" b col e "w\<lparr>w_ticks := w_ticks w + 1\<rparr>"
          "cands keyed ! 0" "- 1000000000", OF ch]
      obtain r where r: "level1Loop e b col (cands keyed)
            (w\<lparr>w_ticks := w_ticks w + 1\<rparr>, cands keyed ! 0, - 1000000000) = Inr r"
        and c: "r = None \<longrightarrow> (\<exists>i. env_cancel e i)"
        by blast
      show ?thesis
      proof (cases r)
        case None
        with r c run show ?thesis by simp
      next
        case (Some m)
        with r level1Loop_member [of e b col "cands keyed" _ _ _ m] first sub
        have "m \<in> set moves" by blast
        with Some r run lm show ?thesis by simp
      qed
    next
      case L: False
      have run: "chooseAIMoveAsync e w b col level koKeyLast blitz =
          candidateLoop e b col plies budget (env_now e (w_ticks w))
            (playoutsTable ! nat (max 1 (min 5 level) - 1))
            (cands keyed)
            (w\<lparr>w_ticks := w_ticks w + 1\<rparr>, cands keyed ! 0, None)"
        using run1 [unfolded if_not_P [OF L]] .
      from candidateLoop_Inr [of e "cands keyed" b col plies budget "env_now e (w_ticks w)"
          "playoutsTable ! nat (max 1 (min 5 level) - 1)" "w\<lparr>w_ticks := w_ticks w + 1\<rparr>"
          "cands keyed ! 0" None, OF unit ch]
      obtain r where r: "candidateLoop e b col plies budget (env_now e (w_ticks w))
            (playoutsTable ! nat (max 1 (min 5 level) - 1))
            (cands keyed)
            (w\<lparr>w_ticks := w_ticks w + 1\<rparr>, cands keyed ! 0, None) = Inr r"
        and c: "r = None \<longrightarrow> (\<exists>i. env_cancel e i)"
        by blast
      show ?thesis
      proof (cases r)
        case None
        with r c run show ?thesis by simp
      next
        case (Some m)
        with r candidateLoop_member [of e b col plies budget _ _ "cands keyed" _ _ _ m] first sub
        have "m \<in> set moves" by blast
        with Some r run lm show ?thesis by simp
      qed
    qed
  qed
qed

section \<open>The empty 2 x 2 board\<close>

text \<open>The four placements on the empty 2 x 2 board.\<close>

definition emptyMoves :: "cell \<Rightarrow> move list" where
  "emptyMoves col =
     [\<lparr>move_r = 0, move_c = 0, move_res = \<lparr>res_board = [[col, EMPTY], [EMPTY, EMPTY]], res_captured = 0\<rparr>, move_pass = False\<rparr>,
      \<lparr>move_r = 0, move_c = 1, move_res = \<lparr>res_board = [[EMPTY, col], [EMPTY, EMPTY]], res_captured = 0\<rparr>, move_pass = False\<rparr>,
      \<lparr>move_r = 1, move_c = 0, move_res = \<lparr>res_board = [[EMPTY, EMPTY], [col, EMPTY]], res_captured = 0\<rparr>, move_pass = False\<rparr>,
      \<lparr>move_r = 1, move_c = 1, move_res = \<lparr>res_board = [[EMPTY, EMPTY], [EMPTY, col]], res_captured = 0\<rparr>, move_pass = False\<rparr>]"

lemma legal_empty2:
  "legalMoves (makeBoard 2) BLACK None = Inr (emptyMoves BLACK @ [passMove (makeBoard 2)])"
  "legalMoves (makeBoard 2) WHITE None = Inr (emptyMoves WHITE @ [passMove (makeBoard 2)])"
  "legalMoves (makeBoard 2) BLACK (Some ''00|00'') = Inr (emptyMoves BLACK @ [passMove (makeBoard 2)])"
  "legalMoves (makeBoard 2) WHITE (Some ''00|00'') = Inr (emptyMoves WHITE @ [passMove (makeBoard 2)])"
  by code_simp+

text \<open>The part of the heuristic before the centre term, which has no root in it.\<close>
definition tactical :: "board \<Rightarrow> move \<Rightarrow> cell \<Rightarrow> error + real" where
  "tactical b mv col =
     (case forEach (neighbors (int (length b)) (move_r mv) (move_c mv)) (helpWeak b col)
             (0 + real (res_captured (move_res mv)) * 5) of
        Inl e \<Rightarrow> Inl e
      | Inr score \<Rightarrow>
          (case floodGroup (res_board (move_res mv)) (move_r mv) (move_c mv) of
             Inl e \<Rightarrow> Inl e
           | Inr self \<Rightarrow> Inr (if length (grp_liberties self) = 1 then score - 3 else score)))"

lemma heuristic_tactical:
  "\<not> move_pass mv \<Longrightarrow> tactical b mv col = Inr t \<Longrightarrow>
   heuristic b mv col =
     Inr (t + (real_of_int (int (length b)) / 2 -
               hypot (real_of_int (move_r mv) - (real_of_int (int (length b)) - 1) / 2)
                     (real_of_int (move_c mv) - (real_of_int (int (length b)) - 1) / 2)) * 0.2)"
  by (auto simp: heuristic_def tactical_def Let_def split: sum.splits)

lemma tactical_empty2:
  "list_all (\<lambda>m. tactical (makeBoard 2) m BLACK = Inr 0) (emptyMoves BLACK)"
  "list_all (\<lambda>m. tactical (makeBoard 2) m WHITE = Inr 0) (emptyMoves WHITE)"
  by code_simp+

lemma hyp2: "hypot (real_of_int r - (real_of_int (int (length (makeBoard 2))) - 1) / 2)
     (real_of_int c - (real_of_int (int (length (makeBoard 2))) - 1) / 2) = sqrt (1 / 2)"
  if "r = 0 \<or> r = 1" "c = 0 \<or> c = 1"
  using that by (auto simp: hypot_def makeBoard_def power2_eq_square)

lemma heuristic_empty2:
  assumes "col = BLACK \<or> col = WHITE" "m \<in> set (emptyMoves col)"
  shows "heuristic (makeBoard 2) m col = Inr ((1 - sqrt (1 / 2)) * 0.2)"
proof -
  from assms tactical_empty2 have t: "tactical (makeBoard 2) m col = Inr 0"
    by (auto simp: list_all_iff)
  from assms(2) have np: "\<not> move_pass m" and rc: "move_r m = 0 \<or> move_r m = 1" "move_c m = 0 \<or> move_c m = 1"
    by (auto simp: emptyMoves_def)
  show ?thesis
    unfolding heuristic_tactical [OF np t] hyp2 [OF rc] by (simp add: makeBoard_def)
qed


lemma mapScored_map:
  assumes "\<And>x j. x \<in> set xs \<Longrightarrow> f x j = Inr (g x)"
  shows "mapScored f xs i = Inr (map g xs)"
  using assms by (induction xs arbitrary: i) auto

lemma sqrt_half_less: "sqrt (1 / 2) < 1"
  using real_sqrt_less_iff [of "1 / 2" 1] by simp

lemma key2: "boardKey (makeBoard 2) = ''00|00''"
  by code_simp

lemma playPly_empty2:
  assumes t: "t = BLACK \<or> t = WHITE" and k: "k = None \<or> k = Some ''00|00''"
  shows "playPly (\<lambda>i. 9 / 10)
      \<lparr>po_board = makeBoard 2, po_koKeyLast = k, po_lastPass = lp, po_turn = t,
       po_draws = d, po_played = n\<rparr> =
    Inr (\<lparr>po_board = makeBoard 2, po_koKeyLast = Some ''00|00'', po_lastPass = True,
          po_turn = OTHER t, po_draws = d + 6, po_played = n + 1\<rparr>, False)"
proof -
  define hv :: real where "hv = (1 - sqrt (1 / 2)) * 0.2"
  define moves where "moves = emptyMoves t @ [passMove (makeBoard 2)]"
  define g where "g = (\<lambda>m :: move. (m, (if move_pass m then - 0.2 else hv) + 9 / 10 * 0.3))"
  have lm: "legalMoves (makeBoard 2) t k = Inr moves"
    using t k legal_empty2 by (auto simp: moves_def)
  have lr: "legalMoves (makeBoard 2) (OTHER t) (Some ''00|00'') =
      Inr (emptyMoves (OTHER t) @ [passMove (makeBoard 2)])"
    using t legal_empty2 by (auto simp: OTHER_def)
  have h: "heuristic (makeBoard 2) m t = Inr (if move_pass m then - 0.2 else hv)"
    if "m \<in> set moves" for m
  proof (cases "m \<in> set (emptyMoves t)")
    case True
    then have "\<not> move_pass m" by (auto simp: emptyMoves_def)
    with heuristic_empty2 [OF t True] show ?thesis by (simp add: hv_def)
  next
    case False
    with that have "m = passMove (makeBoard 2)" by (simp add: moves_def)
    then show ?thesis by (simp add: heuristic_def passMove_def)
  qed
  have sc: "mapScored
      (\<lambda>m i. case heuristic (makeBoard 2) m t of Inl e \<Rightarrow> Inl e | Inr h \<Rightarrow> Inr (m, h + 9 / 10 * 0.3))
      moves d = Inr (map g moves)"
    by (rule mapScored_map) (simp add: h g_def)
  have "sqrt (1 / 2) < 2" using sqrt_half_less by linarith
  then have hv: "- 0.2 < hv" by (simp add: hv_def)
  have "sorted (map (\<lambda>ms. - snd ms) (map g moves))"
    using hv by (simp add: moves_def emptyMoves_def g_def passMove_def)
  then have so: "sortDesc (map g moves) = map g moves"
    unfolding sortDesc_def by (rule sort_key_id_if_sorted)
  have len: "length moves = 5" by (simp add: moves_def emptyMoves_def)
  have idx: "\<lfloor>(9 / 10 :: real) * real_of_int (min 10 (int (length (map g moves))))\<rfloor> = 4"
    using len by (simp add: floor_eq_iff)
  have pick: "fst (g (moves ! 4)) = passMove (makeBoard 2)"
    by (simp add: moves_def emptyMoves_def g_def)
  have nr: "\<not> replyIsPass (emptyMoves (OTHER t) @ [passMove (makeBoard 2)])"
    by (simp add: replyIsPass_def emptyMoves_def)
  show ?thesis
    unfolding playPly_def
    using nr by (simp add: lm sc so idx pick len Let_def passMove_def key2 lr)
qed

text \<open>
  An environment whose random draws are all \<open>9/10\<close>, whose clock stands still and
  which never cancels.
\<close>

definition steady :: "'a \<Rightarrow> nat \<Rightarrow> 'a" where
  "steady x i = x"

definition quietEnv :: env where
  "quietEnv = \<lparr>env_random = steady (9 / 10), env_now = steady 0, env_cancel = steady False\<rparr>"

definition world0 :: world where
  "world0 = \<lparr>w_draws = 0, w_ticks = 0, w_polls = 0\<rparr>"

lemma steady_fun: "steady x = (\<lambda>i. x)"
  by (rule ext) (simp add: steady_def)

lemma level1_empty2:
  assumes L: "max 1 (min 5 level) = 1"
  shows "chooseAIMoveAsync quietEnv world0 (makeBoard 2) BLACK level None False =
     Inr (Some (hd (emptyMoves BLACK)))"
proof -
  define hv :: real where "hv = (1 - sqrt (1 / 2)) * 0.2"
  define moves where "moves = emptyMoves BLACK @ [passMove (makeBoard 2)]"
  define g where "g = (\<lambda>m :: move. (m, if move_pass m then - 0.2 else hv))"
  have lm: "legalMoves (makeBoard 2) BLACK None = Inr moves"
    using legal_empty2 by (simp add: moves_def)
  have h: "heuristic (makeBoard 2) m BLACK = Inr (if move_pass m then - 0.2 else hv)"
    if "m \<in> set moves" for m
  proof (cases "m \<in> set (emptyMoves BLACK)")
    case True
    then have "\<not> move_pass m" by (auto simp: emptyMoves_def)
    with heuristic_empty2 [OF _ True] show ?thesis by (simp add: hv_def)
  next
    case False
    with that have "m = passMove (makeBoard 2)" by (simp add: moves_def)
    then show ?thesis by (simp add: heuristic_def passMove_def)
  qed
  have non: "filter (\<lambda>m. res_captured (move_res m) = 0) moves = moves"
    and caps: "filter (\<lambda>m. res_captured (move_res m) > 0) moves = []"
    by (simp_all add: moves_def emptyMoves_def passMove_def)
  have sc: "mapScored
      (\<lambda>m i. case heuristic (makeBoard 2) m BLACK of Inl e \<Rightarrow> Inl e | Inr h \<Rightarrow> Inr (m, h))
      moves 0 = Inr (map g moves)"
    by (rule mapScored_map) (simp add: h g_def)
  have "sqrt (1 / 2) < 2" using sqrt_half_less by linarith
  then have hv: "- 0.2 < hv" by (simp add: hv_def)
  have hv9: "- 1000000000 < hv" using hv by linarith
  have "sorted (map (\<lambda>ms. - snd ms) (map g moves))"
    using hv by (simp add: moves_def emptyMoves_def g_def passMove_def)
  then have so: "sortDesc (map g moves) = map g moves"
    unfolding sortDesc_def by (rule sort_key_id_if_sorted)
  have fg: "fst \<circ> g = id" "fst (g m) = m" for m by (simp_all add: g_def fun_eq_iff)
  have ne: "moves \<noteq> []" by (simp add: moves_def)
  have len: "length moves = 5" by (simp add: moves_def emptyMoves_def)
  have l1: "level1Loop quietEnv (makeBoard 2) BLACK moves
      (w, moves ! 0, - 1000000000) = Inr (Some (hd (emptyMoves BLACK)))" for w
    using hv hv9 h
    by (simp add: moves_def emptyMoves_def passMove_def quietEnv_def steady_def)
  show ?thesis
    unfolding chooseAIMoveAsync_def
    by (simp add: lm Let_def non caps sc so fg ne len L l1 del: max.absorb1 max.absorb2 max.absorb3 max.absorb4 min.absorb1 min.absorb2 min.absorb3 min.absorb4)
qed

section \<open>Claims about the playout\<close>

lemma playoutLoop_empty2:
  assumes "t = BLACK \<or> t = WHITE" "k = None \<or> k = Some ''00|00''"
  shows "playoutLoop (steady (9 / 10)) n
      \<lparr>po_board = makeBoard 2, po_koKeyLast = k, po_lastPass = lp, po_turn = t,
       po_draws = d, po_played = p\<rparr> =
    Inr (if n = 0 then
           \<lparr>po_board = makeBoard 2, po_koKeyLast = k, po_lastPass = lp, po_turn = t,
            po_draws = d, po_played = p\<rparr>
         else
           \<lparr>po_board = makeBoard 2, po_koKeyLast = Some ''00|00'', po_lastPass = True,
            po_turn = (if even n then t else OTHER t), po_draws = d + 6 * n, po_played = p + n\<rparr>)"
  using assms
proof (induction n arbitrary: t k lp d p)
  case 0
  show ?case by simp
next
  case (Suc n)
  have o: "OTHER t = BLACK \<or> OTHER t = WHITE" by (simp add: OTHER_def)
  have oo: "OTHER (OTHER t) = t" using Suc.prems(1) by (auto simp: OTHER_def)
  show ?case
    unfolding playoutLoop.simps steady_fun playPly_empty2 [OF Suc.prems]
    using Suc.IH [OF o, of "Some ''00|00''" True "d + 6" "p + 1"] oo
    by (simp add: steady_fun algebra_simps)
qed

text \<open>
  C7.  The loop of \<^verbatim>\<open>randomPlayoutWinner\<close> breaks only when the move just picked is a
  pass and the list of the opponent's replies is the pass alone.  On the empty 2 x 2
  board with every random draw \<open>9/10\<close> each ply picks the pass, the last of five moves:
  after one ply and after two the last move is a pass, and with three plies allowed the
  third is played (three plies, eighteen draws).
\<close>

theorem playout_plays_on_after_two_passes:
  "playoutLoop (steady (9 / 10)) 1 (playoutStart (makeBoard 2) BLACK 0) =
     Inr \<lparr>po_board = makeBoard 2, po_koKeyLast = Some ''00|00'', po_lastPass = True,
          po_turn = WHITE, po_draws = 6, po_played = 1\<rparr> \<and>
   playoutLoop (steady (9 / 10)) 2 (playoutStart (makeBoard 2) BLACK 0) =
     Inr \<lparr>po_board = makeBoard 2, po_koKeyLast = Some ''00|00'', po_lastPass = True,
          po_turn = BLACK, po_draws = 12, po_played = 2\<rparr> \<and>
   playoutLoop (steady (9 / 10)) 3 (playoutStart (makeBoard 2) BLACK 0) =
     Inr \<lparr>po_board = makeBoard 2, po_koKeyLast = Some ''00|00'', po_lastPass = True,
          po_turn = WHITE, po_draws = 18, po_played = 3\<rparr> \<and>
   randomPlayoutWinner (steady (9 / 10)) 0 (makeBoard 2) BLACK 3 = Inr (WHITE, 18)"
proof -
  have sc: "winnerOf (makeBoard 2) = WHITE" by code_simp
  have run: "playoutLoop (steady (9 / 10)) n (playoutStart (makeBoard 2) BLACK 0) =
      Inr (if n = 0 then
             \<lparr>po_board = makeBoard 2, po_koKeyLast = None, po_lastPass = False, po_turn = BLACK,
              po_draws = 0, po_played = 0\<rparr>
           else
             \<lparr>po_board = makeBoard 2, po_koKeyLast = Some ''00|00'', po_lastPass = True,
              po_turn = (if even n then BLACK else OTHER BLACK), po_draws = 0 + 6 * n,
              po_played = 0 + n\<rparr>)" for n
    unfolding playoutStart_def cloneBoard_id by (rule playoutLoop_empty2) simp_all
  have "nat 3 = 3" by simp
  with run [of 1] run [of 2] run [of 3] sc show ?thesis
    unfolding randomPlayoutWinner_def by (simp add: OTHER_def)
qed

text \<open>
  C8.  When \<^verbatim>\<open>randomPlayoutWinner\<close> returns, the loop has ended in a state whose board
  is scored: the colour with the larger area is the winner, and with equal areas the
  winner is \<^verbatim>\<open>WHITE\<close>.
\<close>

theorem randomPlayoutWinner_area:
  assumes "randomPlayoutWinner rnd d startBoard col plies = Inr (winner, d')"
  shows "\<exists>st. playoutLoop rnd (nat plies) (playoutStart startBoard col d) = Inr st \<and>
     (score_white (chineseScore (po_board st)) < score_black (chineseScore (po_board st))
        \<longrightarrow> winner = BLACK) \<and>
     (score_black (chineseScore (po_board st)) < score_white (chineseScore (po_board st))
        \<longrightarrow> winner = WHITE) \<and>
     (score_black (chineseScore (po_board st)) = score_white (chineseScore (po_board st))
        \<longrightarrow> winner = WHITE)"
  using assms
  by (cases "playoutLoop rnd (nat plies) (playoutStart startBoard col d)")
    (auto simp: randomPlayoutWinner_def winnerOf_def Let_def)

text \<open>
  With no ply allowed the start board is scored: a black stone alone wins for Black, a
  white stone alone for White; the three passes on the empty board end in a tie, which
  goes to White.
\<close>

theorem randomPlayoutWinner_area_witness:
  "randomPlayoutWinner (steady (9 / 10)) 0 [[BLACK, EMPTY], [EMPTY, EMPTY]] WHITE 0 = Inr (BLACK, 0) \<and>
   chineseScore [[BLACK, EMPTY], [EMPTY, EMPTY]] = \<lparr>score_black = 4, score_white = 0\<rparr> \<and>
   randomPlayoutWinner (steady (9 / 10)) 0 [[WHITE, EMPTY], [EMPTY, EMPTY]] BLACK 0 = Inr (WHITE, 0) \<and>
   chineseScore [[WHITE, EMPTY], [EMPTY, EMPTY]] = \<lparr>score_black = 0, score_white = 4\<rparr> \<and>
   randomPlayoutWinner (steady (9 / 10)) 0 (makeBoard 2) BLACK 3 = Inr (WHITE, 18) \<and>
   chineseScore (makeBoard 2) = \<lparr>score_black = 0, score_white = 0\<rparr>"
proof -
  let ?B = "[[BLACK, EMPTY], [EMPTY, EMPTY]]" and ?W = "[[WHITE, EMPTY], [EMPTY, EMPTY]]"
  have sb: "chineseScore ?B = \<lparr>score_black = 4, score_white = 0\<rparr>" by code_simp
  have sw: "chineseScore ?W = \<lparr>score_black = 0, score_white = 4\<rparr>" by code_simp
  have se: "chineseScore (makeBoard 2) = \<lparr>score_black = 0, score_white = 0\<rparr>" by code_simp
  have rb: "randomPlayoutWinner (steady (9 / 10)) 0 ?B WHITE 0 = Inr (winnerOf ?B, 0)"
    by (simp add: randomPlayoutWinner_def playoutStart_def)
  have rw: "randomPlayoutWinner (steady (9 / 10)) 0 ?W BLACK 0 = Inr (winnerOf ?W, 0)"
    by (simp add: randomPlayoutWinner_def playoutStart_def)
  have run: "playoutLoop (steady (9 / 10)) 3 (playoutStart (makeBoard 2) BLACK 0) =
      Inr \<lparr>po_board = makeBoard 2, po_koKeyLast = Some ''00|00'', po_lastPass = True,
              po_turn = WHITE, po_draws = 18, po_played = 3\<rparr>"
    unfolding playoutStart_def cloneBoard_id
    by (subst playoutLoop_empty2) (simp_all add: OTHER_def)
  have n3: "nat 3 = 3" by simp
  have re: "randomPlayoutWinner (steady (9 / 10)) 0 (makeBoard 2) BLACK 3 =
      Inr (winnerOf (makeBoard 2), 18)"
    unfolding randomPlayoutWinner_def n3 run by simp
  from randomPlayoutWinner_area [OF rb] sb have "winnerOf ?B = BLACK"
    by (simp add: playoutStart_def)
  moreover from randomPlayoutWinner_area [OF rw] sw have "winnerOf ?W = WHITE"
    by (simp add: playoutStart_def)
  moreover from randomPlayoutWinner_area [OF re] se have "winnerOf (makeBoard 2) = WHITE"
    unfolding n3 run by simp
  ultimately show ?thesis using rb rw re sb sw se by simp
qed

text \<open>
  C9, as stated: a level outside 1..5 fails before any board computation.  With level 0
  on the empty 2 x 2 board the function computes the legal moves and returns the
  placement at \<open>(0, 0)\<close>.
\<close>

theorem chooseAIMoveAsync_level0_counterexample:
  "chooseAIMoveAsync quietEnv world0 (makeBoard 2) BLACK 0 None False =
     Inr (Some \<lparr>move_r = 0, move_c = 0,
       move_res = \<lparr>res_board = [[BLACK, EMPTY], [EMPTY, EMPTY]], res_captured = 0\<rparr>,
       move_pass = False\<rparr>)"
  by (simp add: level1_empty2 emptyMoves_def)

text \<open>
  Level 1 on the empty 2 x 2 board returns the first placement, which is in the list.
\<close>

theorem chooseAIMoveAsync_legal_witness:
  "chooseAIMoveAsync quietEnv world0 (makeBoard 2) BLACK 1 None False =
     Inr (Some (hd (emptyMoves BLACK))) \<and>
   legalMoves (makeBoard 2) BLACK None = Inr (emptyMoves BLACK @ [passMove (makeBoard 2)]) \<and>
   hd (emptyMoves BLACK) \<in> set (emptyMoves BLACK @ [passMove (makeBoard 2)])"
proof -
  have c: "chooseAIMoveAsync quietEnv world0 (makeBoard 2) BLACK 1 None False =
     Inr (Some (hd (emptyMoves BLACK)))"
    by (simp add: level1_empty2)
  from chooseAIMoveAsync_legal [OF c] legal_empty2(1) c show ?thesis by simp
qed

text \<open>
  Level 7 on the empty 2 x 2 board, every draw 0.9 and no cancellation: the call does what
  level 5 does and returns a move of the list.
\<close>

theorem chooseAIMoveAsync_clamps_witness:
  "(\<forall>i. 0 \<le> env_random quietEnv i \<and> env_random quietEnv i < 1) \<and>
   chooseAIMoveAsync quietEnv world0 (makeBoard 2) BLACK 7 None False =
     chooseAIMoveAsync quietEnv world0 (makeBoard 2) BLACK 5 None False \<and>
   (\<exists>m. chooseAIMoveAsync quietEnv world0 (makeBoard 2) BLACK 7 None False = Inr (Some m) \<and>
        m \<in> set (emptyMoves BLACK @ [passMove (makeBoard 2)]))"
proof -
  have u: "\<forall>i. 0 \<le> env_random quietEnv i \<and> env_random quietEnv i < 1"
    by (simp add: quietEnv_def steady_def)
  have nc: "\<not> (\<exists>i. env_cancel quietEnv i)"
    by (simp add: quietEnv_def steady_def)
  note th = chooseAIMoveAsync_clamps [of quietEnv world0 "makeBoard 2" BLACK 7 None False]
  from conjunct1 [OF th]
  have eq: "chooseAIMoveAsync quietEnv world0 (makeBoard 2) BLACK 7 None False =
       chooseAIMoveAsync quietEnv world0 (makeBoard 2) BLACK 5 None False"
    by simp
  from conjunct2 [OF th] u
  obtain r where r: "chooseAIMoveAsync quietEnv world0 (makeBoard 2) BLACK 7 None False = Inr r"
    and c: "case r of
          None \<Rightarrow> \<exists>i. env_cancel quietEnv i
        | Some m \<Rightarrow> \<exists>moves. legalMoves (makeBoard 2) BLACK None = Inr moves \<and> m \<in> set moves"
    by blast
  from c nc obtain m where "r = Some m" "m \<in> set (emptyMoves BLACK @ [passMove (makeBoard 2)])"
    using legal_empty2 by (cases r) auto
  with u eq r show ?thesis by blast
qed

end
